theory Spec2Isabelle
  imports Main "HOL-Library.Word"
begin

unbundle bit_operations_syntax

section \<open>The Sphinx packet format of loopix-messaging (sphinx/sphinx.go)\<close>

text \<open>
  A shallow embedding of \<^verbatim>\<open>sphinx/sphinx.go\<close>. Go byte slices are lists of 8-bit words
  (a nil slice and an empty slice are both the empty list: the code only takes their
  length, compares them with \<^verbatim>\<open>bytes.Equal\<close> and copies them). A Go string is an
  immutable byte sequence, so it is a byte list too, and \<^verbatim>\<open>[]byte(message)\<close> is the
  identity. A \<^verbatim>\<open>float64\<close> delay is only copied by this package; it is modelled by its
  64-bit IEEE pattern.
\<close>

type_synonym byte = "8 word"
type_synonym bytes = "byte list"
type_synonym gostring = "byte list"
type_synonym float64 = "64 word"

subsection \<open>Results: a value, an error value, or a run-time panic\<close>

datatype error =
    InvalidPublicKey nat
  | SharedSecretCountMismatch
  | MacMismatch
  | LibraryError nat

datatype panic = NilDereference | IndexOutOfRange

datatype 'a result = Ok 'a | Err error | Panic panic

fun rbind :: "'a result \<Rightarrow> ('a \<Rightarrow> 'b result) \<Rightarrow> 'b result" where
  "rbind (Ok v) f = f v"
| "rbind (Err e) f = Err e"
| "rbind (Panic p) f = Panic p"

text \<open>Indexing a slice: Go panics when the index is out of range.\<close>

definition idx :: "'a list \<Rightarrow> nat \<Rightarrow> 'a result" where
  "idx xs i = (if i < length xs then Ok (xs ! i) else Panic IndexOutOfRange)"

text \<open>\<^verbatim>\<open>xs[len(xs)-1]\<close>: the index is \<open>-1\<close> on an empty slice, which panics.\<close>

definition idx_last :: "'a list \<Rightarrow> 'a result" where
  "idx_last xs = (if xs = [] then Panic IndexOutOfRange else Ok (last xs))"

subsection \<open>Data\<close>

record MixConfig =
  Id :: gostring
  Host :: gostring
  Port :: gostring
  PubKey :: bytes

record ClientConfig =
  clientId :: gostring
  clientHost :: gostring
  clientPort :: gostring

record E2EPath =
  IngressProvider :: MixConfig
  Mixes :: "MixConfig list"
  EgressProvider :: MixConfig
  Recipient :: ClientConfig

record Hop =
  hopId :: gostring
  Address :: gostring
  hopPubKey :: bytes

record Commands =
  Delay :: float64
  Flag :: bytes

text \<open>The message fields \<^verbatim>\<open>NextHop\<close>, \<^verbatim>\<open>RoutingCommands\<close> and \<^verbatim>\<open>Hdr\<close> are
  pointers in the generated Go structs: \<open>None\<close> is the nil pointer.\<close>

record RoutingInfo =
  NextHop :: "Hop option"
  RoutingCommands :: "Commands option"
  NextHopMetaData :: bytes
  riMac :: bytes

record Header =
  hdrAlpha :: bytes
  Beta :: bytes
  Mac :: bytes

record SphinxPacket =
  Hdr :: "Header option"
  Pld :: bytes

record HeaderInitials =
  Alpha :: bytes
  Secret :: bytes
  Blinder :: bytes
  SecretHash :: bytes

definition zeroHop :: Hop where
  "zeroHop = \<lparr>hopId = [], Address = [], hopPubKey = []\<rparr>"

definition zeroCommands :: Commands where
  "zeroCommands = \<lparr>Delay = 0, Flag = []\<rparr>"

definition zeroHeader :: Header where
  "zeroHeader = \<lparr>hdrAlpha = [], Beta = [], Mac = []\<rparr>"

subsection \<open>What the package calls but does not define\<close>

text \<open>
  The symmetric primitives (\<^verbatim>\<open>KDF\<close>, \<^verbatim>\<open>AesCtr\<close>, \<^verbatim>\<open>computeMac\<close>), the field
  element conversions, the flag constants of package \<^verbatim>\<open>flags\<close>, the curve operations of
  \<^verbatim>\<open>golang.org/x/crypto/curve25519\<close>, the AES-CTR stream of \<^verbatim>\<open>crypto/cipher\<close> and
  the protobuf codec are not defined in \<^verbatim>\<open>sphinx.go\<close>. They are parameters of the model.
  \<open>ScalarMult s p\<close> is \<^verbatim>\<open>curve25519.ScalarMult(dst, s, p)\<close>; \<open>ctrStream key iv src\<close> is
  \<^verbatim>\<open>aes.NewCipher(key)\<close> (which can return an error) followed by
  \<^verbatim>\<open>cipher.NewCTR(_, iv).XORKeyStream(dst, src)\<close>; \<open>pubToFE b\<close> is
  \<^verbatim>\<open>BytesToPublicKey(b).ToFieldElement()\<close> and \<open>privToFE\<close> is
  \<^verbatim>\<open>PrivateKey.ToFieldElement\<close>; \<open>feBytes\<close> is \<^verbatim>\<open>FieldElement.Bytes\<close>.
\<close>

record ('fe, 'priv) primitives =
  KDF :: "bytes \<Rightarrow> bytes result"
  AesCtr :: "bytes \<Rightarrow> bytes \<Rightarrow> bytes result"
  computeMac :: "bytes \<Rightarrow> bytes \<Rightarrow> bytes result"
  ctrStream :: "bytes \<Rightarrow> bytes \<Rightarrow> bytes \<Rightarrow> bytes result"
  ScalarMult :: "'fe \<Rightarrow> 'fe \<Rightarrow> 'fe"
  ScalarBaseMult :: "'fe \<Rightarrow> 'fe"
  BytesToFieldElement :: "bytes \<Rightarrow> 'fe"
  feBytes :: "'fe \<Rightarrow> bytes"
  pubToFE :: "bytes \<Rightarrow> 'fe"
  privToFE :: "'priv \<Rightarrow> 'fe"
  RelayFlag :: bytes
  LastHopFlag :: bytes
  marshalRoutingInfo :: "RoutingInfo \<Rightarrow> bytes result"
  unmarshalRoutingInfo :: "bytes \<Rightarrow> RoutingInfo result"
  marshalPacket :: "SphinxPacket \<Rightarrow> bytes result"
  unmarshalPacket :: "bytes \<Rightarrow> SphinxPacket result"

definition PublicKeySize :: nat where
  "PublicKeySize = 32"


subsection \<open>Chained exponentiation\<close>

text \<open>
  Modelled from the spec: \<^verbatim>\<open>expo\<close> and \<^verbatim>\<open>expoGroupBase\<close> are defined in the
  package's crypto file, which is not among the sources. Section 4.1 of the specification
  and the comments at their call sites in \<^verbatim>\<open>getSharedSecrets\<close> say that
  \<open>expo(point, [s1, ..., sn])\<close> computes \<open>((point\<cdot>s1)\<cdot>s2)\<dots>\<cdot>sn\<close> one scalar
  multiplication at a time, and that \<^verbatim>\<open>expoGroupBase\<close> does the same starting from the
  base point (\<open>tmp1 := g^x1\<close>, \<open>tmp2 := tmp1^x2\<close>, ...). The base-point variant reads
  \<open>exp[0]\<close>, which panics on an empty list.
\<close>

definition expo :: "('fe, 'priv) primitives \<Rightarrow> 'fe \<Rightarrow> 'fe list \<Rightarrow> 'fe" where
  "expo P base exp = foldl (\<lambda>acc s. ScalarMult P s acc) base exp"

fun expoGroupBase :: "('fe, 'priv) primitives \<Rightarrow> 'fe list \<Rightarrow> 'fe result" where
  "expoGroupBase P [] = Panic IndexOutOfRange"
| "expoGroupBase P (x # xs) = Ok (expo P (ScalarBaseMult P x) xs)"

subsection \<open>Blinding factors\<close>

text \<open>The plaintext of \<^verbatim>\<open>computeSharedSecretHash\<close> is sixteen ASCII zeros (0x30).\<close>

definition hashPlaintext :: bytes where
  "hashPlaintext = replicate 16 0x30"

text \<open>\<^verbatim>\<open>[]byte("initialvector000")\<close>\<close>

definition blinderIV :: bytes where
  "blinderIV = [0x69, 0x6E, 0x69, 0x74, 0x69, 0x61, 0x6C, 0x76,
                0x65, 0x63, 0x74, 0x6F, 0x72, 0x30, 0x30, 0x30]"

definition computeSharedSecretHash ::
  "('fe, 'priv) primitives \<Rightarrow> bytes \<Rightarrow> bytes \<Rightarrow> bytes result" where
  "computeSharedSecretHash P key iv = ctrStream P key iv hashPlaintext"

definition computeBlindingFactor :: "('fe, 'priv) primitives \<Rightarrow> bytes \<Rightarrow> 'fe result" where
  "computeBlindingFactor P key =
     rbind (computeSharedSecretHash P key blinderIV)
       (\<lambda>blinderBytes. Ok (BytesToFieldElement P blinderBytes))"

subsection \<open>getSharedSecrets\<close>

text \<open>
  The loop \<^verbatim>\<open>for i, n := range nodes\<close>, with the index \<open>i\<close> and the growing list
  \<open>blindFactors\<close> as accumulators. An error at any node discards the tuples computed so
  far (\<^verbatim>\<open>return nil, err\<close>).
\<close>

fun getSharedSecrets_loop ::
  "('fe, 'priv) primitives \<Rightarrow> nat \<Rightarrow> 'fe list \<Rightarrow> MixConfig list \<Rightarrow> HeaderInitials list result"
where
  "getSharedSecrets_loop P i blindFactors [] = Ok []"
| "getSharedSecrets_loop P i blindFactors (n # ns) =
     rbind (expoGroupBase P blindFactors) (\<lambda>alpha.
       if length (PubKey n) \<noteq> PublicKeySize then Err (InvalidPublicKey i)
       else
         let s = expo P (pubToFE P (PubKey n)) blindFactors in
         rbind (KDF P (feBytes P s)) (\<lambda>aesS.
         rbind (computeBlindingFactor P aesS) (\<lambda>blinder.
         rbind (getSharedSecrets_loop P (Suc i) (blindFactors @ [blinder]) ns) (\<lambda>tuples.
           Ok (\<lparr>Alpha = feBytes P alpha, Secret = feBytes P s,
                Blinder = feBytes P blinder, SecretHash = aesS\<rparr> # tuples)))))"

definition getSharedSecrets ::
  "('fe, 'priv) primitives \<Rightarrow> MixConfig list \<Rightarrow> 'fe \<Rightarrow> HeaderInitials list result" where
  "getSharedSecrets P nodes initialVal = getSharedSecrets_loop P 0 [initialVal] nodes"

subsection \<open>encapsulateHeader\<close>

text \<open>\<^verbatim>\<open>Host + ":" + Port\<close>\<close>

definition hostPort :: "gostring \<Rightarrow> gostring \<Rightarrow> gostring" where
  "hostPort h p = h @ [0x3A] @ p"

text \<open>
  One iteration of \<^verbatim>\<open>for i := len(nodes) - 2; i >= 0; i--\<close>, at index \<open>i\<close>. The loop
  state is \<open>(routingCommands, encRouting, mac)\<close>. The body calls \<^verbatim>\<open>KDF\<close> twice on the
  same argument, at lines 174 and 190; a Go function may return an error at one call and
  not at the other, so the two call sites are the separate parameters \<open>kdfA\<close> and
  \<open>kdfB\<close>. A failure of the second call returns \<^verbatim>\<open>Header{}, nil\<close>: a success whose
  value is the zero header. So the body returns either a finished result (\<open>Inl\<close>) or the
  next loop state (\<open>Inr\<close>).
\<close>

definition encapsulateHeader_body ::
  "('fe, 'priv) primitives \<Rightarrow> (bytes \<Rightarrow> bytes result) \<Rightarrow> (bytes \<Rightarrow> bytes result) \<Rightarrow>
   HeaderInitials list \<Rightarrow> MixConfig list \<Rightarrow> Commands list \<Rightarrow> nat \<Rightarrow>
   bytes list \<times> bytes \<times> bytes \<Rightarrow> (Header + bytes list \<times> bytes \<times> bytes) result" where
  "encapsulateHeader_body P kdfA kdfB headerInitials nodes commands i st =
     (case st of (routingCommands, encRouting, mac) \<Rightarrow>
      rbind (idx nodes (i + 1)) (\<lambda>nextNode.
      rbind (idx commands i) (\<lambda>c.
      rbind (idx_last routingCommands) (\<lambda>meta.
      let routing = \<lparr>NextHop = Some \<lparr>hopId = Id nextNode,
                                       Address = hostPort (Host nextNode) (Port nextNode),
                                       hopPubKey = PubKey nextNode\<rparr>,
                     RoutingCommands = Some c,
                     NextHopMetaData = meta,
                     riMac = mac\<rparr> in
      rbind (idx headerInitials i) (\<lambda>hi.
      rbind (kdfA (SecretHash hi)) (\<lambda>encKey.
      rbind (marshalRoutingInfo P routing) (\<lambda>routingBytes.
      rbind (AesCtr P encKey routingBytes) (\<lambda>encRouting'.
      (case kdfB (SecretHash hi) of
         Panic p \<Rightarrow> Panic p
       | Err e \<Rightarrow> Ok (Inl zeroHeader)
       | Ok kdfResL \<Rightarrow>
           rbind (computeMac P kdfResL encRouting') (\<lambda>mac'.
             Ok (Inr (routingCommands @ [encRouting'], encRouting', mac'))))))))))))"

fun encapsulateHeader_loop ::
  "('fe, 'priv) primitives \<Rightarrow> (bytes \<Rightarrow> bytes result) \<Rightarrow> (bytes \<Rightarrow> bytes result) \<Rightarrow>
   HeaderInitials list \<Rightarrow> MixConfig list \<Rightarrow> Commands list \<Rightarrow> nat \<Rightarrow>
   bytes list \<times> bytes \<times> bytes \<Rightarrow> (Header + bytes list \<times> bytes \<times> bytes) result" where
  "encapsulateHeader_loop P kdfA kdfB headerInitials nodes commands 0 st = Ok (Inr st)"
| "encapsulateHeader_loop P kdfA kdfB headerInitials nodes commands (Suc i) st =
     (case encapsulateHeader_body P kdfA kdfB headerInitials nodes commands i st of
        Ok (Inr st') \<Rightarrow> encapsulateHeader_loop P kdfA kdfB headerInitials nodes commands i st'
      | r \<Rightarrow> r)"

text \<open>
  The function with its call sites of \<^verbatim>\<open>KDF\<close> made explicit: \<open>kdf0\<close> is the call at
  line 145, before the loop. The counter of the loop starts at \<open>len(nodes) - 1\<close>
  iterations (none when there are fewer than two nodes), the variable \<open>encRouting\<close>
  starts as nil.
\<close>

definition encapsulateHeader_sites ::
  "('fe, 'priv) primitives \<Rightarrow> (bytes \<Rightarrow> bytes result) \<Rightarrow> (bytes \<Rightarrow> bytes result) \<Rightarrow>
   (bytes \<Rightarrow> bytes result) \<Rightarrow>
   HeaderInitials list \<Rightarrow> MixConfig list \<Rightarrow> Commands list \<Rightarrow> ClientConfig \<Rightarrow> Header result" where
  "encapsulateHeader_sites P kdf0 kdfA kdfB headerInitials nodes commands destination =
     rbind (idx_last commands) (\<lambda>c.
     let finalHop = \<lparr>NextHop = Some \<lparr>hopId = clientId destination,
                                      Address = hostPort (clientHost destination) (clientPort destination),
                                      hopPubKey = []\<rparr>,
                     RoutingCommands = Some c,
                     NextHopMetaData = [],
                     riMac = []\<rparr> in
     rbind (marshalRoutingInfo P finalHop) (\<lambda>finalHopBytes.
     rbind (idx_last headerInitials) (\<lambda>hiLast.
     rbind (kdf0 (SecretHash hiLast)) (\<lambda>kdfRes.
     rbind (AesCtr P kdfRes finalHopBytes) (\<lambda>encFinalHop.
     rbind (computeMac P kdfRes encFinalHop) (\<lambda>mac.
     rbind (encapsulateHeader_loop P kdfA kdfB headerInitials nodes commands
              (length nodes - 1) ([encFinalHop], [], mac)) (\<lambda>r.
       case r of
         Inl h \<Rightarrow> Ok h
       | Inr (routingCommands, encRouting, mac') \<Rightarrow>
           rbind (idx headerInitials 0) (\<lambda>hi0.
             Ok \<lparr>hdrAlpha = Alpha hi0, Beta = encRouting, Mac = mac'\<rparr>))))))))"

definition encapsulateHeader ::
  "('fe, 'priv) primitives \<Rightarrow> HeaderInitials list \<Rightarrow> MixConfig list \<Rightarrow> Commands list \<Rightarrow>
   ClientConfig \<Rightarrow> Header result" where
  "encapsulateHeader P = encapsulateHeader_sites P (KDF P) (KDF P) (KDF P)"


subsection \<open>createHeader\<close>

text \<open>
  The loop \<^verbatim>\<open>for i := range nodes\<close> that fills \<open>commands\<close>; \<open>n\<close> is
  \<open>len(nodes)\<close>. Reading \<open>delays[i]\<close> panics when \<open>delays\<close> is too short; there is
  no other check of its length.
\<close>

fun createHeader_commands ::
  "('fe, 'priv) primitives \<Rightarrow> nat \<Rightarrow> nat \<Rightarrow> MixConfig list \<Rightarrow> float64 list \<Rightarrow> Commands list result"
where
  "createHeader_commands P n i [] delays = Ok []"
| "createHeader_commands P n i (x # xs) delays =
     rbind (idx delays i) (\<lambda>d.
       let c = (if i = n - 1 then \<lparr>Delay = d, Flag = LastHopFlag P\<rparr>
                else \<lparr>Delay = d, Flag = RelayFlag P\<rparr>) in
       rbind (createHeader_commands P n (Suc i) xs delays) (\<lambda>cs. Ok (c # cs)))"

text \<open>\<open>rnd\<close> is what \<^verbatim>\<open>RandomElement()\<close> returned: the ephemeral scalar or an error.\<close>

definition createHeader ::
  "('fe, 'priv) primitives \<Rightarrow> 'fe result \<Rightarrow> MixConfig list \<Rightarrow> float64 list \<Rightarrow> ClientConfig \<Rightarrow>
   (HeaderInitials list \<times> Header) result" where
  "createHeader P rnd nodes delays dest =
     rbind rnd (\<lambda>x.
     rbind (getSharedSecrets P nodes x) (\<lambda>headerInitials.
       if length headerInitials \<noteq> length nodes then Err SharedSecretCountMismatch
       else
         rbind (createHeader_commands P (length nodes) 0 nodes delays) (\<lambda>commands.
         rbind (encapsulateHeader P headerInitials nodes commands dest) (\<lambda>header.
           Ok (headerInitials, header)))))"

subsection \<open>encapsulateContent\<close>

text \<open>\<^verbatim>\<open>for i := len(headerInitials) - 1; i >= 0; i--\<close>, the counter being \<open>i + 1\<close>.\<close>

fun encapsulateContent_loop ::
  "('fe, 'priv) primitives \<Rightarrow> HeaderInitials list \<Rightarrow> nat \<Rightarrow> bytes \<Rightarrow> bytes result" where
  "encapsulateContent_loop P headerInitials 0 enc = Ok enc"
| "encapsulateContent_loop P headerInitials (Suc i) enc =
     rbind (idx headerInitials i) (\<lambda>hi.
     rbind (KDF P (SecretHash hi)) (\<lambda>sharedKey.
     rbind (AesCtr P sharedKey enc) (\<lambda>enc'.
       encapsulateContent_loop P headerInitials i enc')))"

definition encapsulateContent ::
  "('fe, 'priv) primitives \<Rightarrow> HeaderInitials list \<Rightarrow> gostring \<Rightarrow> bytes result" where
  "encapsulateContent P headerInitials message =
     encapsulateContent_loop P headerInitials (length headerInitials) message"

subsection \<open>PackForwardMessage\<close>

definition PackForwardMessage ::
  "('fe, 'priv) primitives \<Rightarrow> 'fe result \<Rightarrow> E2EPath \<Rightarrow> float64 list \<Rightarrow> gostring \<Rightarrow>
   SphinxPacket result" where
  "PackForwardMessage P rnd path delays message =
     (let nodes = [IngressProvider path] @ Mixes path @ [EgressProvider path];
          dest = Recipient path in
      rbind (createHeader P rnd nodes delays dest) (\<lambda>(headerInitials, header).
      rbind (encapsulateContent P headerInitials message) (\<lambda>payload.
        Ok \<lparr>Hdr = Some header, Pld = payload\<rparr>)))"

subsection \<open>Processing a packet at one hop\<close>

text \<open>\<^verbatim>\<open>readBeta\<close> dereferences both pointers without a nil check.\<close>

definition readBeta :: "RoutingInfo \<Rightarrow> (Hop \<times> Commands \<times> bytes \<times> bytes) result" where
  "readBeta beta =
     (case NextHop beta of
        None \<Rightarrow> Panic NilDereference
      | Some nextHop \<Rightarrow>
          (case RoutingCommands beta of
             None \<Rightarrow> Panic NilDereference
           | Some commands \<Rightarrow> Ok (nextHop, commands, NextHopMetaData beta, riMac beta)))"

definition ProcessSphinxHeader ::
  "('fe, 'priv) primitives \<Rightarrow> Header \<Rightarrow> 'priv \<Rightarrow> (Hop \<times> Commands \<times> Header) result" where
  "ProcessSphinxHeader P packet privKey =
     (let alpha = BytesToFieldElement P (hdrAlpha packet);
          beta = Beta packet;
          mac = Mac packet;
          sharedSecret = ScalarMult P (privToFE P privKey) alpha in
      rbind (KDF P (feBytes P sharedSecret)) (\<lambda>aesS.
      rbind (KDF P aesS) (\<lambda>encKey.
      rbind (computeMac P encKey beta) (\<lambda>recomputedMac.
        if recomputedMac \<noteq> mac then Err MacMismatch
        else
          rbind (computeBlindingFactor P aesS) (\<lambda>blinder.
          let newAlpha = ScalarMult P blinder alpha in
          rbind (AesCtr P encKey beta) (\<lambda>decBeta.
          rbind (unmarshalRoutingInfo P decBeta) (\<lambda>routingInfo.
          rbind (readBeta routingInfo) (\<lambda>(nextHop, commands, nextBeta, nextMac).
            Ok (nextHop, commands,
                \<lparr>hdrAlpha = feBytes P newAlpha, Beta = nextBeta, Mac = nextMac\<rparr>)))))))))"

definition ProcessSphinxPayload ::
  "('fe, 'priv) primitives \<Rightarrow> bytes \<Rightarrow> bytes \<Rightarrow> 'priv \<Rightarrow> bytes result" where
  "ProcessSphinxPayload P alpha payload privKey =
     (let sharedSecret = ScalarMult P (privToFE P privKey) (BytesToFieldElement P alpha) in
      rbind (KDF P (feBytes P sharedSecret)) (\<lambda>aesS.
      rbind (KDF P aesS) (\<lambda>decKey.
      rbind (AesCtr P decKey payload) (\<lambda>decPayload. Ok decPayload))))"

text \<open>\<^verbatim>\<open>*packet.Hdr\<close> is a dereference: a packet without a header panics.\<close>

definition ProcessSphinxPacket ::
  "('fe, 'priv) primitives \<Rightarrow> bytes \<Rightarrow> 'priv \<Rightarrow> (Hop \<times> Commands \<times> bytes) result" where
  "ProcessSphinxPacket P packetBytes privKey =
     rbind (unmarshalPacket P packetBytes) (\<lambda>packet.
       case Hdr packet of
         None \<Rightarrow> Panic NilDereference
       | Some hdr \<Rightarrow>
           rbind (ProcessSphinxHeader P hdr privKey) (\<lambda>(hop, commands, newHeader).
           rbind (ProcessSphinxPayload P (hdrAlpha hdr) (Pld packet) privKey) (\<lambda>newPayload.
           rbind (marshalPacket P \<lparr>Hdr = Some newHeader, Pld = newPayload\<rparr>) (\<lambda>newPacketBytes.
             Ok (hop, commands, newPacketBytes)))))"

text \<open>
  A packet's journey: \<^verbatim>\<open>ProcessSphinxPacket\<close> applied once per private key, in order,
  each hop receiving the bytes the previous one returned. The result is the list of
  \<open>(hop, commands)\<close> pairs and the bytes the last hop returned.
\<close>

fun process_path ::
  "('fe, 'priv) primitives \<Rightarrow> bytes \<Rightarrow> 'priv list \<Rightarrow> ((Hop \<times> Commands) list \<times> bytes) result" where
  "process_path P packetBytes [] = Ok ([], packetBytes)"
| "process_path P packetBytes (k # ks) =
     rbind (ProcessSphinxPacket P packetBytes k) (\<lambda>(hop, commands, newBytes).
     rbind (process_path P newBytes ks) (\<lambda>(hcs, final).
       Ok ((hop, commands) # hcs, final)))"

subsection \<open>Statements about the primitives and about honest relays\<close>

text \<open>
  What the tuple of one node must be, given the node's public key, the list of scalars
  applied so far (the ephemeral scalar followed by the blinders of the previous nodes)
  and the node's own blinder \<open>b\<close>.
\<close>

definition chain_tuple ::
  "('fe, 'priv) primitives \<Rightarrow> bytes \<Rightarrow> 'fe list \<Rightarrow> 'fe \<Rightarrow> HeaderInitials \<Rightarrow> bool" where
  "chain_tuple P pub factors b t \<longleftrightarrow>
     (\<exists>a. expoGroupBase P factors = Ok a \<and> Alpha t = feBytes P a) \<and>
     Secret t = feBytes P (foldl (\<lambda>acc s. ScalarMult P s acc) (pubToFE P pub) factors) \<and>
     KDF P (Secret t) = Ok (SecretHash t) \<and>
     (\<exists>h. computeSharedSecretHash P (SecretHash t) blinderIV = Ok h \<and>
          b = BytesToFieldElement P h) \<and>
     Blinder t = feBytes P b"

text \<open>The key derivation never fails, and a derived key is accepted by AES.\<close>

definition chain_prims_ok :: "('fe, 'priv) primitives \<Rightarrow> bool" where
  "chain_prims_ok P \<longleftrightarrow>
     (\<forall>h. \<exists>k. KDF P h = Ok k) \<and>
     (\<forall>h k. KDF P h = Ok k \<longrightarrow> (\<exists>c. ctrStream P k blinderIV hashPlaintext = Ok c))"

subsection \<open>A small instance of the primitives\<close>

text \<open>
  An instance on which the definitions can be run. Field elements are numbers modulo
  \<open>2^255 - 19\<close>, decoded from 32 little-endian bytes with the top bit ignored, as
  X25519 decodes a u-coordinate; scalar multiplication is multiplication in that field,
  the cipher is an XOR with a key byte, and the codec writes each field with a unary
  length. None of this is secure; it has the algebra the packet format relies on.
\<close>

definition demo_q :: nat where
  "demo_q = 2 ^ 255 - 19"

fun le_encode :: "nat \<Rightarrow> nat \<Rightarrow> bytes" where
  "le_encode 0 v = []"
| "le_encode (Suc n) v = of_nat (v mod 256) # le_encode n (v div 256)"

fun le_decode :: "bytes \<Rightarrow> nat" where
  "le_decode [] = 0"
| "le_decode (b # bs) = unat b + 256 * le_decode bs"

definition demo_decode :: "bytes \<Rightarrow> nat" where
  "demo_decode b = le_decode (take 32 b) mod 2 ^ 255"

definition keybyte :: "bytes \<Rightarrow> byte" where
  "keybyte k = (case k of [] \<Rightarrow> 0 | b # _ \<Rightarrow> b)"

definition put_bytes :: "bytes \<Rightarrow> bytes" where
  "put_bytes b = replicate (length b) 1 @ [0] @ b"

fun get_len :: "bytes \<Rightarrow> (nat \<times> bytes) option" where
  "get_len [] = None"
| "get_len (x # xs) =
     (if x = 0 then Some (0, xs)
      else if x = 1 then (case get_len xs of None \<Rightarrow> None | Some (n, r) \<Rightarrow> Some (Suc n, r))
      else None)"

definition get_bytes :: "bytes \<Rightarrow> (bytes \<times> bytes) option" where
  "get_bytes bs =
     (case get_len bs of
        None \<Rightarrow> None
      | Some (n, r) \<Rightarrow> if n \<le> length r then Some (take n r, drop n r) else None)"

definition put_hop :: "Hop option \<Rightarrow> bytes" where
  "put_hop ho =
     (case ho of
        None \<Rightarrow> [0]
      | Some h \<Rightarrow> [1] @ put_bytes (hopId h) @ put_bytes (Address h) @ put_bytes (hopPubKey h))"

definition get_hop :: "bytes \<Rightarrow> (Hop option \<times> bytes) option" where
  "get_hop bs =
     (case bs of
        [] \<Rightarrow> None
      | t # r0 \<Rightarrow>
          if t = 0 then Some (None, r0)
          else
            (case get_bytes r0 of None \<Rightarrow> None | Some (i, r1) \<Rightarrow>
            (case get_bytes r1 of None \<Rightarrow> None | Some (a, r2) \<Rightarrow>
            (case get_bytes r2 of None \<Rightarrow> None | Some (k, r3) \<Rightarrow>
               Some (Some \<lparr>hopId = i, Address = a, hopPubKey = k\<rparr>, r3)))))"

definition put_commands :: "Commands option \<Rightarrow> bytes" where
  "put_commands co =
     (case co of
        None \<Rightarrow> [0]
      | Some c \<Rightarrow> [1] @ le_encode 8 (unat (Delay c)) @ put_bytes (Flag c))"

definition get_commands :: "bytes \<Rightarrow> (Commands option \<times> bytes) option" where
  "get_commands bs =
     (case bs of
        [] \<Rightarrow> None
      | t # r0 \<Rightarrow>
          if t = 0 then Some (None, r0)
          else if length r0 < 8 then None
          else
            (case get_bytes (drop 8 r0) of None \<Rightarrow> None | Some (f, r1) \<Rightarrow>
               Some (Some \<lparr>Delay = of_nat (le_decode (take 8 r0)), Flag = f\<rparr>, r1)))"

definition demo_marshalRoutingInfo :: "RoutingInfo \<Rightarrow> bytes result" where
  "demo_marshalRoutingInfo r =
     Ok (put_hop (NextHop r) @ put_commands (RoutingCommands r) @
         put_bytes (NextHopMetaData r) @ put_bytes (riMac r))"

definition demo_unmarshalRoutingInfo :: "bytes \<Rightarrow> RoutingInfo result" where
  "demo_unmarshalRoutingInfo bs =
     (if bs = [] then Ok \<lparr>NextHop = None, RoutingCommands = None, NextHopMetaData = [], riMac = []\<rparr>
      else
        (case get_hop bs of None \<Rightarrow> Err (LibraryError 1) | Some (h, r0) \<Rightarrow>
        (case get_commands r0 of None \<Rightarrow> Err (LibraryError 1) | Some (c, r1) \<Rightarrow>
        (case get_bytes r1 of None \<Rightarrow> Err (LibraryError 1) | Some (m, r2) \<Rightarrow>
        (case get_bytes r2 of None \<Rightarrow> Err (LibraryError 1) | Some (t, r3) \<Rightarrow>
           if r3 = [] then Ok \<lparr>NextHop = h, RoutingCommands = c, NextHopMetaData = m, riMac = t\<rparr>
           else Err (LibraryError 1))))))"

definition put_header :: "Header option \<Rightarrow> bytes" where
  "put_header ho =
     (case ho of
        None \<Rightarrow> [0]
      | Some h \<Rightarrow> [1] @ put_bytes (hdrAlpha h) @ put_bytes (Beta h) @ put_bytes (Mac h))"

definition get_header :: "bytes \<Rightarrow> (Header option \<times> bytes) option" where
  "get_header bs =
     (case bs of
        [] \<Rightarrow> None
      | t # r0 \<Rightarrow>
          if t = 0 then Some (None, r0)
          else
            (case get_bytes r0 of None \<Rightarrow> None | Some (a, r1) \<Rightarrow>
            (case get_bytes r1 of None \<Rightarrow> None | Some (b, r2) \<Rightarrow>
            (case get_bytes r2 of None \<Rightarrow> None | Some (m, r3) \<Rightarrow>
               Some (Some \<lparr>hdrAlpha = a, Beta = b, Mac = m\<rparr>, r3)))))"

definition demo_marshalPacket :: "SphinxPacket \<Rightarrow> bytes result" where
  "demo_marshalPacket p = Ok (put_header (Hdr p) @ put_bytes (Pld p))"

definition demo_unmarshalPacket :: "bytes \<Rightarrow> SphinxPacket result" where
  "demo_unmarshalPacket bs =
     (if bs = [] then Ok \<lparr>Hdr = None, Pld = []\<rparr>
      else
        (case get_header bs of None \<Rightarrow> Err (LibraryError 2) | Some (h, r0) \<Rightarrow>
        (case get_bytes r0 of None \<Rightarrow> Err (LibraryError 2) | Some (p, r1) \<Rightarrow>
           if r1 = [] then Ok \<lparr>Hdr = h, Pld = p\<rparr> else Err (LibraryError 2))))"

definition demo :: "(nat, nat) primitives" where
  "demo = \<lparr>
     KDF = (\<lambda>h. Ok (map (\<lambda>b. b + 1) h)),
     AesCtr = (\<lambda>k d. Ok (map (\<lambda>b. b XOR keybyte k) d)),
     computeMac = (\<lambda>k d. Ok (k @ d)),
     ctrStream = (\<lambda>k iv src. Ok (map (\<lambda>b. b XOR keybyte k XOR keybyte iv) src)),
     ScalarMult = (\<lambda>s p. (s * p) mod demo_q),
     ScalarBaseMult = (\<lambda>s. (s * 9) mod demo_q),
     BytesToFieldElement = demo_decode,
     feBytes = le_encode 32,
     pubToFE = demo_decode,
     privToFE = (\<lambda>k. k),
     RelayFlag = [0xF1],
     LastHopFlag = [0xF0],
     marshalRoutingInfo = demo_marshalRoutingInfo,
     unmarshalRoutingInfo = demo_unmarshalRoutingInfo,
     marshalPacket = demo_marshalPacket,
     unmarshalPacket = demo_unmarshalPacket\<rparr>"

definition demo_priv :: "nat \<Rightarrow> nat" where
  "demo_priv k = k + 5"

definition demo_node :: "nat \<Rightarrow> MixConfig" where
  "demo_node k = \<lparr>Id = [0x4E, 0x30 + of_nat k], Host = [0x68, 0x30 + of_nat k],
                  Port = [0x39, 0x30 + of_nat k],
                  PubKey = le_encode 32 ((demo_priv k * 9) mod demo_q)\<rparr>"

definition demo_dest :: ClientConfig where
  "demo_dest = \<lparr>clientId = [0x43], clientHost = [0x68], clientPort = [0x39]\<rparr>"

definition demo_nodes :: "MixConfig list" where
  "demo_nodes = [demo_node 0, demo_node 1, demo_node 2]"

subsection \<open>The header as the specification describes it (section 4.4)\<close>

text \<open>
  The specification builds the routing blob from the innermost hop outwards: the final
  layer holds the recipient and the last command with empty metadata and MAC; the layer
  of every earlier hop holds the next node, its own command, and the encrypted blob and
  MAC of the layer inside it. Each layer is serialised, encrypted under the hop's key
  \<open>KDF(SecretHash)\<close> and authenticated under the same key. \<open>onion\<close> follows these
  words, on the lists of the hops that are still ahead; it returns the encrypted blob and
  its MAC. It is the reference the code is compared with.
\<close>

definition final_layer ::
  "('fe, 'priv) primitives \<Rightarrow> HeaderInitials \<Rightarrow> Commands \<Rightarrow> ClientConfig \<Rightarrow> (bytes \<times> bytes) result"
where
  "final_layer P hi c destination =
     rbind (marshalRoutingInfo P
              \<lparr>NextHop = Some \<lparr>hopId = clientId destination,
                                Address = hostPort (clientHost destination) (clientPort destination),
                                hopPubKey = []\<rparr>,
               RoutingCommands = Some c, NextHopMetaData = [], riMac = []\<rparr>) (\<lambda>plain.
     rbind (KDF P (SecretHash hi)) (\<lambda>k.
     rbind (AesCtr P k plain) (\<lambda>e.
     rbind (computeMac P k e) (\<lambda>m. Ok (e, m)))))"

definition relay_layer ::
  "('fe, 'priv) primitives \<Rightarrow> HeaderInitials \<Rightarrow> MixConfig \<Rightarrow> Commands \<Rightarrow> bytes \<Rightarrow> bytes \<Rightarrow>
   (bytes \<times> bytes) result" where
  "relay_layer P hi nextNode c meta mac =
     rbind (KDF P (SecretHash hi)) (\<lambda>k.
     rbind (marshalRoutingInfo P
              \<lparr>NextHop = Some \<lparr>hopId = Id nextNode,
                                Address = hostPort (Host nextNode) (Port nextNode),
                                hopPubKey = PubKey nextNode\<rparr>,
               RoutingCommands = Some c, NextHopMetaData = meta, riMac = mac\<rparr>) (\<lambda>plain.
     rbind (AesCtr P k plain) (\<lambda>e.
     rbind (computeMac P k e) (\<lambda>m. Ok (e, m)))))"

fun onion ::
  "('fe, 'priv) primitives \<Rightarrow> HeaderInitials list \<Rightarrow> MixConfig list \<Rightarrow> Commands list \<Rightarrow>
   ClientConfig \<Rightarrow> (bytes \<times> bytes) result" where
  "onion P [hi] [n] [c] destination = final_layer P hi c destination"
| "onion P (hi # his) (n # n' # ns) (c # cs) destination =
     rbind (onion P his (n' # ns) cs destination) (\<lambda>(e, m). relay_layer P hi n' c e m)"
| "onion P his ns cs destination = Panic IndexOutOfRange"

text \<open>The symmetric primitives accept every key that \<^verbatim>\<open>KDF\<close> derives, and
  \<^verbatim>\<open>AesCtr\<close> under one key undoes itself (a stream cipher with a fixed nonce).\<close>

definition cipher_ok :: "('fe, 'priv) primitives \<Rightarrow> bool" where
  "cipher_ok P \<longleftrightarrow>
     (\<forall>h k d. KDF P h = Ok k \<longrightarrow> (\<exists>c. AesCtr P k d = Ok c \<and> AesCtr P k c = Ok d)) \<and>
     (\<forall>h k d. KDF P h = Ok k \<longrightarrow> (\<exists>m. computeMac P k d = Ok m))"

text \<open>Serialising never fails and deserialising gives the value back.\<close>

definition codec_ok :: "('fe, 'priv) primitives \<Rightarrow> bool" where
  "codec_ok P \<longleftrightarrow>
     (\<forall>r. \<exists>bs. marshalRoutingInfo P r = Ok bs \<and> unmarshalRoutingInfo P bs = Ok r) \<and>
     (\<forall>p. \<exists>bs. marshalPacket P p = Ok bs \<and> unmarshalPacket P bs = Ok p)"

text \<open>Scalar multiplications commute (Diffie-Hellman), and the bytes of a group element
  decode to that element.\<close>

definition dh_ok :: "('fe, 'priv) primitives \<Rightarrow> bool" where
  "dh_ok P \<longleftrightarrow>
     (\<forall>a b p. ScalarMult P a (ScalarMult P b p) = ScalarMult P b (ScalarMult P a p)) \<and>
     (\<forall>a b. ScalarMult P a (ScalarBaseMult P b) = ScalarMult P b (ScalarBaseMult P a)) \<and>
     (\<forall>s p. BytesToFieldElement P (feBytes P (ScalarMult P s p)) = ScalarMult P s p) \<and>
     (\<forall>s. BytesToFieldElement P (feBytes P (ScalarBaseMult P s)) = ScalarBaseMult P s)"

text \<open>Every node's public key has 32 bytes and is the base point multiplied by the
  private key of the same position.\<close>

definition honest_keys :: "('fe, 'priv) primitives \<Rightarrow> MixConfig list \<Rightarrow> 'priv list \<Rightarrow> bool" where
  "honest_keys P nodes privs \<longleftrightarrow>
     length privs = length nodes \<and>
     (\<forall>i<length nodes. length (PubKey (nodes ! i)) = PublicKeySize \<and>
        pubToFE P (PubKey (nodes ! i)) = ScalarBaseMult P (privToFE P (privs ! i)))"

text \<open>The hop a relay is told to forward to, and the hop the last relay is given.\<close>

definition hopOf :: "MixConfig \<Rightarrow> Hop" where
  "hopOf n = \<lparr>hopId = Id n, Address = hostPort (Host n) (Port n), hopPubKey = PubKey n\<rparr>"

definition destHop :: "ClientConfig \<Rightarrow> Hop" where
  "destHop d = \<lparr>hopId = clientId d, Address = hostPort (clientHost d) (clientPort d),
               hopPubKey = []\<rparr>"

text \<open>The node list \<^verbatim>\<open>PackForwardMessage\<close> derives from a path.\<close>

definition pathNodes :: "E2EPath \<Rightarrow> MixConfig list" where
  "pathNodes path = [IngressProvider path] @ Mixes path @ [EgressProvider path]"

definition demo_path :: E2EPath where
  "demo_path = \<lparr>IngressProvider = demo_node 0, Mixes = [demo_node 1],
                 EgressProvider = demo_node 2, Recipient = demo_dest\<rparr>"

definition demo_privs :: "nat list" where
  "demo_privs = [demo_priv 0, demo_priv 1, demo_priv 2]"

definition demo_delays :: "float64 list" where
  "demo_delays = [1, 2, 3]"

definition demo_message :: gostring where
  "demo_message = [0x68, 0x65, 0x6C, 0x6C, 0x6F]"

text \<open>\<^verbatim>\<open>AesCtr\<close> is a stream cipher: its output is as long as its input.\<close>

definition aes_length_preserving :: "('fe, 'priv) primitives \<Rightarrow> bool" where
  "aes_length_preserving P \<longleftrightarrow> (\<forall>k d c. AesCtr P k d = Ok c \<longrightarrow> length c = length d)"

definition demo_initials :: "HeaderInitials list" where
  "demo_initials =
     [\<lparr>Alpha = [1], Secret = [2], Blinder = [3], SecretHash = [4]\<rparr>,
      \<lparr>Alpha = [5], Secret = [6], Blinder = [7], SecretHash = [8]\<rparr>]"

section \<open>Properties\<close>

subsection \<open>Auxiliary facts\<close>

lemma rbind_Ok_iff: "rbind r f = Ok v \<longleftrightarrow> (\<exists>a. r = Ok a \<and> f a = Ok v)"
  by (cases r) auto

lemma get_len_put: "get_len (replicate n 1 @ 0 # r) = Some (n, r)"
  by (induction n) auto

lemma get_bytes_put: "get_bytes (put_bytes b @ r) = Some (b, r)"
  by (simp add: get_bytes_def put_bytes_def get_len_put)

lemma le_decode_encode: "le_decode (le_encode n v) = v mod 256 ^ n"
proof (induction n arbitrary: v)
  case 0
  then show ?case by simp
next
  case (Suc n)
  have "unat (of_nat (v mod 256) :: byte) = v mod 256"
    by (simp add: unat_of_nat)
  then show ?case
    using Suc.IH[of "v div 256"] by (simp add: mod_mult2_eq)
qed

lemma length_le_encode: "length (le_encode n v) = n"
  by (induction n arbitrary: v) auto

lemma get_hop_put: "get_hop (put_hop h @ r) = Some (h, r)"
  by (cases h) (auto simp: get_hop_def put_hop_def get_bytes_put)

lemma get_commands_put: "get_commands (put_commands c @ r) = Some (c, r)"
proof (cases c)
  case None
  then show ?thesis by (simp add: get_commands_def put_commands_def)
next
  case (Some a)
  have "unat (Delay a) < 2 ^ 64"
    using unsigned_less[of "Delay a"] by simp
  then have "(of_nat (unat (Delay a) mod 256 ^ 8) :: 64 word) = Delay a"
    by simp
  then show ?thesis using Some
    by (simp add: get_commands_def put_commands_def length_le_encode le_decode_encode get_bytes_put)
qed

lemma get_bytes_put_end: "get_bytes (put_bytes b) = Some (b, [])"
  using get_bytes_put[of b "[]"] by simp

lemma put_hop_nonempty: "put_hop h \<noteq> []"
  by (cases h) (auto simp: put_hop_def)

lemma demo_routing_roundtrip:
  "\<exists>bs. demo_marshalRoutingInfo r = Ok bs \<and> demo_unmarshalRoutingInfo bs = Ok r"
  by (simp add: demo_marshalRoutingInfo_def demo_unmarshalRoutingInfo_def get_hop_put
        get_commands_put get_bytes_put get_bytes_put_end put_hop_nonempty)

lemma get_header_put: "get_header (put_header h @ r) = Some (h, r)"
  by (cases h) (auto simp: get_header_def put_header_def get_bytes_put)

lemma put_header_nonempty: "put_header h \<noteq> []"
  by (cases h) (auto simp: put_header_def)

lemma demo_packet_roundtrip:
  "\<exists>bs. demo_marshalPacket p = Ok bs \<and> demo_unmarshalPacket bs = Ok p"
  by (simp add: demo_marshalPacket_def demo_unmarshalPacket_def get_header_put
        get_bytes_put_end put_header_nonempty)

lemma demo_decode_encode: "v < demo_q \<Longrightarrow> demo_decode (le_encode 32 v) = v"
  by (simp add: demo_decode_def length_le_encode le_decode_encode demo_q_def)

lemma demo_mult_lt: "(a * b) mod demo_q < demo_q"
  by (simp add: demo_q_def)

subsection \<open>The shared-secret chain\<close>

lemma gss_loop_chain:
  "getSharedSecrets_loop P i bf nodes = Ok ts \<Longrightarrow>
   \<exists>bs. length bs = length nodes \<and> length ts = length nodes \<and>
     (\<forall>j<length nodes. length (PubKey (nodes ! j)) = PublicKeySize \<and>
        chain_tuple P (PubKey (nodes ! j)) (bf @ take j bs) (bs ! j) (ts ! j))"
proof (induction nodes arbitrary: i bf ts)
  case Nil
  then show ?case by simp
next
  case (Cons n ns)
  from Cons.prems obtain alpha aesS blinder tuples where
    a: "expoGroupBase P bf = Ok alpha" and
    len: "length (PubKey n) = PublicKeySize" and
    k: "KDF P (feBytes P (expo P (pubToFE P (PubKey n)) bf)) = Ok aesS" and
    b: "computeBlindingFactor P aesS = Ok blinder" and
    rest: "getSharedSecrets_loop P (Suc i) (bf @ [blinder]) ns = Ok tuples" and
    ts: "ts = \<lparr>Alpha = feBytes P alpha, Secret = feBytes P (expo P (pubToFE P (PubKey n)) bf),
                Blinder = feBytes P blinder, SecretHash = aesS\<rparr> # tuples"
    by (auto simp: rbind_Ok_iff Let_def split: if_splits)
  from Cons.IH[OF rest] obtain bs where
    bs: "length bs = length ns" "length tuples = length ns"
      "\<forall>j<length ns. length (PubKey (ns ! j)) = PublicKeySize \<and>
          chain_tuple P (PubKey (ns ! j)) ((bf @ [blinder]) @ take j bs) (bs ! j) (tuples ! j)"
    by blast
  have hd: "chain_tuple P (PubKey n) bf blinder (hd ts)"
    using a k b by (auto simp: chain_tuple_def ts computeBlindingFactor_def rbind_Ok_iff expo_def)
  show ?case
  proof (intro exI[of _ "blinder # bs"] conjI allI impI)
    fix j assume j: "j < length (n # ns)"
    show "length (PubKey ((n # ns) ! j)) = PublicKeySize"
      using j len bs(3) by (cases j) auto
    show "chain_tuple P (PubKey ((n # ns) ! j)) (bf @ take j (blinder # bs)) ((blinder # bs) ! j) (ts ! j)"
    proof (cases j)
      case 0
      then show ?thesis using hd ts by simp
    next
      case (Suc j')
      then show ?thesis using bs(3) j ts by simp
    qed
  qed (simp_all add: bs ts)
qed

lemma gss_loop_total:
  assumes ok: "chain_prims_ok P"
  shows "bf \<noteq> [] \<Longrightarrow> \<forall>n\<in>set nodes. length (PubKey n) = PublicKeySize \<Longrightarrow>
         \<exists>ts. getSharedSecrets_loop P i bf nodes = Ok ts"
proof (induction nodes arbitrary: i bf)
  case Nil
  then show ?case by simp
next
  case (Cons n ns)
  obtain x xs where bf: "bf = x # xs" using Cons.prems(1) by (cases bf) auto
  obtain aesS where k: "KDF P (feBytes P (expo P (pubToFE P (PubKey n)) bf)) = Ok aesS"
    using ok unfolding chain_prims_ok_def by blast
  obtain c where c: "ctrStream P aesS blinderIV hashPlaintext = Ok c"
    using ok k unfolding chain_prims_ok_def by blast
  have b: "computeBlindingFactor P aesS = Ok (BytesToFieldElement P c)"
    by (simp add: computeBlindingFactor_def computeSharedSecretHash_def c)
  obtain ts where "getSharedSecrets_loop P (Suc i) (bf @ [BytesToFieldElement P c]) ns = Ok ts"
    using Cons.IH[of "bf @ [BytesToFieldElement P c]" "Suc i"] Cons.prems by auto
  then show ?case
    using k b Cons.prems(2) by (simp add: bf Let_def)
qed

text \<open>
  Claim C3. When every public key has 32 bytes (and the key derivation and AES accept
  their inputs), \<^verbatim>\<open>getSharedSecrets\<close> returns one tuple per node. With \<open>bs\<close> the
  blinders, the tuple of node \<open>i\<close> has the secret obtained from the node's public key by
  applying the scalars \<open>x, b\<^sub>0, \<dots>, b\<^sub>i\<^sub>-\<^sub>1\<close> one scalar multiplication after the other
  (a left fold, never a product of scalars), the hash \<open>KDF(s\<^sub>i)\<close>, and the blinder decoded
  from \<^verbatim>\<open>computeSharedSecretHash\<close> of that hash under the fixed initial vector; the first
  alpha is \<open>x\<cdot>G\<close>.
\<close>

theorem C3_shared_secret_chain:
  assumes keys: "\<forall>n\<in>set nodes. length (PubKey n) = PublicKeySize"
    and ok: "chain_prims_ok P"
  shows "\<exists>ts bs. getSharedSecrets P nodes x = Ok ts \<and>
           length ts = length nodes \<and> length bs = length nodes \<and>
           (\<forall>i<length nodes.
              chain_tuple P (PubKey (nodes ! i)) (x # take i bs) (bs ! i) (ts ! i)) \<and>
           (nodes \<noteq> [] \<longrightarrow> Alpha (ts ! 0) = feBytes P (ScalarBaseMult P x))"
proof -
  obtain ts where ts: "getSharedSecrets_loop P 0 [x] nodes = Ok ts"
    using gss_loop_total[OF ok _ keys, of "[x]" 0] by auto
  from gss_loop_chain[OF ts] obtain bs where
    bs: "length bs = length nodes" "length ts = length nodes"
      "\<forall>j<length nodes. chain_tuple P (PubKey (nodes ! j)) ([x] @ take j bs) (bs ! j) (ts ! j)"
    by blast
  have a0: "nodes \<noteq> [] \<longrightarrow> Alpha (ts ! 0) = feBytes P (ScalarBaseMult P x)"
  proof
    assume "nodes \<noteq> []"
    then have "chain_tuple P (PubKey (nodes ! 0)) [x] (bs ! 0) (ts ! 0)"
      using bs(3) by auto
    then show "Alpha (ts ! 0) = feBytes P (ScalarBaseMult P x)"
      by (auto simp: chain_tuple_def expo_def)
  qed
  show ?thesis
    using ts bs a0 by (auto simp: getSharedSecrets_def)
qed

lemma demo_chain_prims_ok: "chain_prims_ok demo"
  by (simp add: chain_prims_ok_def demo_def)

lemma demo_node_key: "length (PubKey (demo_node k)) = PublicKeySize"
  by (simp add: demo_node_def length_le_encode PublicKeySize_def)

lemma demo_nodes_keys: "\<forall>n\<in>set demo_nodes. length (PubKey n) = PublicKeySize"
  by (simp add: demo_nodes_def demo_node_key)

text \<open>The hypotheses of C3 hold for three nodes of the small instance.\<close>

theorem C3_shared_secret_chain_witness:
  "list_all (\<lambda>n. length (PubKey n) = PublicKeySize) demo_nodes \<and>
   chain_prims_ok demo \<and>
   (\<exists>ts bs. getSharedSecrets demo demo_nodes 7 = Ok ts \<and>
      length ts = length demo_nodes \<and> length bs = length demo_nodes \<and>
      (\<forall>i<length demo_nodes.
         chain_tuple demo (PubKey (demo_nodes ! i)) (7 # take i bs) (bs ! i) (ts ! i)) \<and>
      (demo_nodes \<noteq> [] \<longrightarrow> Alpha (ts ! 0) = feBytes demo (ScalarBaseMult demo 7)))"
  using demo_nodes_keys demo_chain_prims_ok
    C3_shared_secret_chain[OF demo_nodes_keys demo_chain_prims_ok, of 7]
  unfolding list_all_iff by blast

subsection \<open>The code builds the header of the specification\<close>

lemma rbind_assoc: "rbind (rbind r f) g = rbind r (\<lambda>x. rbind (f x) g)"
  by (cases r) auto

lemma onion_drop_step:
  assumes "Suc k < length nodes" "k < length his" "k < length cmds"
  shows "onion P (drop k his) (drop k nodes) (drop k cmds) dest =
         rbind (onion P (drop (Suc k) his) (drop (Suc k) nodes) (drop (Suc k) cmds) dest)
           (\<lambda>(e, m). relay_layer P (his ! k) (nodes ! Suc k) (cmds ! k) e m)"
proof -
  have "drop k nodes = nodes ! k # nodes ! Suc k # drop (Suc (Suc k)) nodes"
    using assms(1) by (simp add: Cons_nth_drop_Suc Suc_lessD)
  moreover have "drop (Suc k) nodes = nodes ! Suc k # drop (Suc (Suc k)) nodes"
    using assms(1) by (simp add: Cons_nth_drop_Suc)
  moreover have "drop k his = his ! k # drop (Suc k) his"
    using assms(2) by (simp add: Cons_nth_drop_Suc)
  moreover have "drop k cmds = cmds ! k # drop (Suc k) cmds"
    using assms(3) by (simp add: Cons_nth_drop_Suc)
  ultimately show ?thesis by simp
qed

lemma onion_drop_last:
  assumes "length nodes = Suc k" "length his = Suc k" "length cmds = Suc k"
  shows "onion P (drop k his) (drop k nodes) (drop k cmds) dest =
         final_layer P (last his) (last cmds) dest"
proof -
  have "his \<noteq> []" "cmds \<noteq> []" using assms by auto
  then have "last his = his ! k" "last cmds = cmds ! k"
    using assms by (simp_all add: last_conv_nth)
  then have "drop k nodes = [nodes ! k]" "drop k his = [last his]" "drop k cmds = [last cmds]"
    using assms by (auto simp: Cons_nth_drop_Suc[symmetric])
  then show ?thesis by simp
qed

lemma onion_drop_Ok:
  assumes "length nodes = n" "length his = n" "length cmds = n"
    and "onion P his nodes cmds dest = Ok r"
  shows "k < n \<Longrightarrow> \<exists>r'. onion P (drop k his) (drop k nodes) (drop k cmds) dest = Ok r'"
proof (induction k)
  case 0
  then show ?case using assms by simp
next
  case (Suc k)
  then obtain r' where "onion P (drop k his) (drop k nodes) (drop k cmds) dest = Ok r'"
    by auto
  then show ?case
    using onion_drop_step[of k nodes his cmds P dest] Suc.prems assms(1-3)
    by (auto simp: rbind_Ok_iff)
qed

lemma body_relay:
  assumes "Suc k < length nodes" "k < length his" "k < length cmds" "rc \<noteq> []"
    and "relay_layer P (his ! k) (nodes ! Suc k) (cmds ! k) (last rc) mac = Ok (e, m)"
  shows "encapsulateHeader_body P (KDF P) (KDF P) his nodes cmds k (rc, enc, mac) =
         Ok (Inr (rc @ [e], e, m))"
  using assms
  by (auto simp: encapsulateHeader_body_def relay_layer_def idx_def idx_last_def
      rbind_Ok_iff Let_def)

lemma loop_onion:
  assumes lens: "length nodes = n" "length his = n" "length cmds = n"
    and full: "onion P his nodes cmds dest = Ok (e0, m0)"
  shows "k < n \<Longrightarrow> onion P (drop k his) (drop k nodes) (drop k cmds) dest = Ok (ek, mk) \<Longrightarrow>
         rc \<noteq> [] \<Longrightarrow> last rc = ek \<Longrightarrow>
         \<exists>rc'. encapsulateHeader_loop P (KDF P) (KDF P) his nodes cmds k (rc, enc, mk) =
                 Ok (Inr (rc', (if k = 0 then enc else e0), m0))"
proof (induction k arbitrary: ek mk rc enc)
  case 0
  then show ?case using full by simp
next
  case (Suc k)
  have k: "Suc k < length nodes" "k < length his" "k < length cmds" "k < n"
    using Suc.prems(1) lens by auto
  obtain e m where em: "onion P (drop k his) (drop k nodes) (drop k cmds) dest = Ok (e, m)"
    using onion_drop_Ok[OF lens full k(4)] by auto
  have rl: "relay_layer P (his ! k) (nodes ! Suc k) (cmds ! k) (last rc) mk = Ok (e, m)"
    using em Suc.prems(2,4) by (simp add: onion_drop_step[OF k(1-3)])
  have body: "encapsulateHeader_body P (KDF P) (KDF P) his nodes cmds k (rc, enc, mk) =
         Ok (Inr (rc @ [e], e, m))"
    by (rule body_relay[OF k(1-3) Suc.prems(3) rl])
  obtain rc' where "encapsulateHeader_loop P (KDF P) (KDF P) his nodes cmds k (rc @ [e], e, m) =
                 Ok (Inr (rc', (if k = 0 then e else e0), m0))"
    using Suc.IH[OF k(4) em, of "rc @ [e]" e] by auto
  moreover have "k = 0 \<Longrightarrow> e = e0"
    using em full by simp
  ultimately show ?case
    using body by auto
qed

lemma encapsulateHeader_onion:
  assumes lens: "length nodes = n" "length his = n" "length cmds = n" and n: "2 \<le> n"
    and full: "onion P his nodes cmds dest = Ok (e0, m0)"
  shows "encapsulateHeader P his nodes cmds dest =
         Ok \<lparr>hdrAlpha = Alpha (his ! 0), Beta = e0, Mac = m0\<rparr>"
proof -
  obtain k where k: "n = Suc k" "k \<noteq> 0" using n by (cases n) auto
  obtain e m where em: "onion P (drop k his) (drop k nodes) (drop k cmds) dest = Ok (e, m)"
    using onion_drop_Ok[OF lens full, of k] k by auto
  then have fl: "final_layer P (last his) (last cmds) dest = Ok (e, m)"
    using onion_drop_last[of nodes k his cmds P dest] lens k by simp
  obtain rc' where loop: "encapsulateHeader_loop P (KDF P) (KDF P) his nodes cmds k ([e], [], m) =
                 Ok (Inr (rc', e0, m0))"
    using loop_onion[OF lens full _ em, of "[e]" "[]"] k by auto
  have ne: "his \<noteq> []" "cmds \<noteq> []" using lens k by auto
  show ?thesis
    using fl loop ne lens k
    by (auto simp: encapsulateHeader_def encapsulateHeader_sites_def final_layer_def
        idx_last_def idx_def rbind_Ok_iff Let_def)
qed

subsection \<open>One hop undoes one layer\<close>

lemma foldl_ScalarMult_commute:
  assumes "\<forall>a b p. ScalarMult P a (ScalarMult P b p) = ScalarMult P b (ScalarMult P a p)"
  shows "ScalarMult P a (foldl (\<lambda>acc s. ScalarMult P s acc) p bs) =
         foldl (\<lambda>acc s. ScalarMult P s acc) (ScalarMult P a p) bs"
  using assms by (induction bs arbitrary: p) auto

lemma decode_expoGroupBase:
  assumes "dh_ok P" "expoGroupBase P bf = Ok a"
  shows "BytesToFieldElement P (feBytes P a) = a"
proof -
  obtain x bs where bf: "bf = x # bs" using assms(2) by (cases bf) auto
  show ?thesis
  proof (cases bs rule: rev_cases)
    case Nil
    then show ?thesis using assms bf by (auto simp: dh_ok_def expo_def)
  next
    case (snoc ys y)
    then show ?thesis using assms bf by (auto simp: dh_ok_def expo_def)
  qed
qed

lemma shared_secret_agrees:
  assumes dh: "dh_ok P" and a: "expoGroupBase P bf = Ok a"
    and key: "pubToFE P pub = ScalarBaseMult P (privToFE P priv)"
  shows "ScalarMult P (privToFE P priv) (BytesToFieldElement P (feBytes P a)) =
         expo P (pubToFE P pub) bf"
proof -
  obtain x bs where bf: "bf = x # bs" using a by (cases bf) auto
  have comm: "\<forall>a b p. ScalarMult P a (ScalarMult P b p) = ScalarMult P b (ScalarMult P a p)"
    using dh by (simp add: dh_ok_def)
  have "ScalarMult P (privToFE P priv) a =
        foldl (\<lambda>acc s. ScalarMult P s acc) (ScalarMult P (privToFE P priv) (ScalarBaseMult P x)) bs"
    using a bf foldl_ScalarMult_commute[OF comm] by (auto simp: expo_def)
  also have "ScalarMult P (privToFE P priv) (ScalarBaseMult P x) =
             ScalarMult P x (ScalarBaseMult P (privToFE P priv))"
    using dh by (simp add: dh_ok_def)
  finally show ?thesis
    using decode_expoGroupBase[OF dh a] key bf by (simp add: expo_def)
qed

lemma expoGroupBase_snoc:
  "expoGroupBase P bf = Ok a \<Longrightarrow> expoGroupBase P (bf @ [b]) = Ok (ScalarMult P b a)"
  by (cases bf) (auto simp: expo_def)

lemma rbind_Ok_right: "rbind r Ok = r"
  by (cases r) auto

lemma encapsulateContent_loop_0: "encapsulateContent_loop P his 0 = Ok"
  by (rule ext) simp

lemma aes_undo:
  assumes "cipher_ok P" "KDF P h = Ok k" "AesCtr P k d = Ok c"
  shows "AesCtr P k c = Ok d"
proof -
  obtain c' where "AesCtr P k d = Ok c'" "AesCtr P k c' = Ok d"
    using assms(1,2) unfolding cipher_ok_def by blast
  then show ?thesis using assms(3) by simp
qed

lemma process_header_relay:
  assumes cipher: "cipher_ok P" and codec: "codec_ok P"
    and layer: "relay_layer P hi n' c e' m' = Ok (e, m)"
    and secret: "KDF P (feBytes P (ScalarMult P (privToFE P priv) (BytesToFieldElement P alphaBytes)))
                 = Ok (SecretHash hi)"
    and blind: "computeBlindingFactor P (SecretHash hi) = Ok b"
  shows "ProcessSphinxHeader P \<lparr>hdrAlpha = alphaBytes, Beta = e, Mac = m\<rparr> priv =
         Ok (\<lparr>hopId = Id n', Address = hostPort (Host n') (Port n'), hopPubKey = PubKey n'\<rparr>, c,
             \<lparr>hdrAlpha = feBytes P (ScalarMult P b (BytesToFieldElement P alphaBytes)),
              Beta = e', Mac = m'\<rparr>)"
proof -
  let ?r = "\<lparr>NextHop = Some \<lparr>hopId = Id n', Address = hostPort (Host n') (Port n'),
                               hopPubKey = PubKey n'\<rparr>,
              RoutingCommands = Some c, NextHopMetaData = e', riMac = m'\<rparr>"
  from layer obtain k plain where
    k: "KDF P (SecretHash hi) = Ok k" and
    plain: "marshalRoutingInfo P ?r = Ok plain" and
    e: "AesCtr P k plain = Ok e" and
    m: "computeMac P k e = Ok m"
    by (auto simp: relay_layer_def rbind_Ok_iff)
  have dec: "AesCtr P k e = Ok plain"
    by (rule aes_undo[OF cipher k e])
  have un: "unmarshalRoutingInfo P plain = Ok ?r"
    using codec plain unfolding codec_ok_def by (metis result.inject(1))
  show ?thesis
    using secret k m blind dec un
    by (simp add: ProcessSphinxHeader_def Let_def readBeta_def)
qed

lemma process_header_final:
  assumes cipher: "cipher_ok P" and codec: "codec_ok P"
    and layer: "final_layer P hi c dest = Ok (e, m)"
    and secret: "KDF P (feBytes P (ScalarMult P (privToFE P priv) (BytesToFieldElement P alphaBytes)))
                 = Ok (SecretHash hi)"
    and blind: "computeBlindingFactor P (SecretHash hi) = Ok b"
  shows "ProcessSphinxHeader P \<lparr>hdrAlpha = alphaBytes, Beta = e, Mac = m\<rparr> priv =
         Ok (\<lparr>hopId = clientId dest, Address = hostPort (clientHost dest) (clientPort dest),
              hopPubKey = []\<rparr>, c,
             \<lparr>hdrAlpha = feBytes P (ScalarMult P b (BytesToFieldElement P alphaBytes)),
              Beta = [], Mac = []\<rparr>)"
proof -
  let ?r = "\<lparr>NextHop = Some \<lparr>hopId = clientId dest,
                               Address = hostPort (clientHost dest) (clientPort dest),
                               hopPubKey = []\<rparr>,
              RoutingCommands = Some c, NextHopMetaData = [], riMac = []\<rparr>"
  from layer obtain k plain where
    k: "KDF P (SecretHash hi) = Ok k" and
    plain: "marshalRoutingInfo P ?r = Ok plain" and
    e: "AesCtr P k plain = Ok e" and
    m: "computeMac P k e = Ok m"
    by (auto simp: final_layer_def rbind_Ok_iff)
  have dec: "AesCtr P k e = Ok plain"
    by (rule aes_undo[OF cipher k e])
  have un: "unmarshalRoutingInfo P plain = Ok ?r"
    using codec plain unfolding codec_ok_def by (metis result.inject(1))
  show ?thesis
    using secret k m blind dec un
    by (simp add: ProcessSphinxHeader_def Let_def readBeta_def)
qed

lemma process_payload_layer:
  assumes cipher: "cipher_ok P"
    and secret: "KDF P (feBytes P (ScalarMult P (privToFE P priv) (BytesToFieldElement P alphaBytes)))
                 = Ok (SecretHash hi)"
    and k: "KDF P (SecretHash hi) = Ok k"
    and enc: "AesCtr P k inner = Ok outer"
  shows "ProcessSphinxPayload P alphaBytes outer priv = Ok inner"
proof -
  have "AesCtr P k outer = Ok inner"
    by (rule aes_undo[OF cipher k enc])
  then show ?thesis
    using secret k by (simp add: ProcessSphinxPayload_def Let_def)
qed

lemma encapsulateContent_loop_Cons:
  "encapsulateContent_loop P (t # ts) (Suc j) enc =
   rbind (encapsulateContent_loop P ts j enc)
     (\<lambda>e. rbind (KDF P (SecretHash t)) (\<lambda>k. AesCtr P k e))" if "j \<le> length ts"
  using that
proof (induction j arbitrary: enc)
  case 0
  then show ?case
    by (simp add: idx_def rbind_Ok_right encapsulateContent_loop_0)
next
  case (Suc j)
  have i: "idx (t # ts) (Suc j) = idx ts j"
    using Suc.prems by (simp add: idx_def)
  have ih: "\<And>e'. encapsulateContent_loop P (t # ts) (Suc j) e' =
              rbind (encapsulateContent_loop P ts j e')
                (\<lambda>e. rbind (KDF P (SecretHash t)) (\<lambda>k. AesCtr P k e))"
    using Suc.IH Suc.prems by simp
  have "encapsulateContent_loop P (t # ts) (Suc (Suc j)) enc =
        rbind (idx ts j) (\<lambda>hi. rbind (KDF P (SecretHash hi)) (\<lambda>sharedKey.
        rbind (AesCtr P sharedKey enc) (\<lambda>enc'. encapsulateContent_loop P (t # ts) (Suc j) enc')))"
    by (subst encapsulateContent_loop.simps(2)) (simp only: i)
  also have "\<dots> = rbind (idx ts j) (\<lambda>hi. rbind (KDF P (SecretHash hi)) (\<lambda>sharedKey.
        rbind (AesCtr P sharedKey enc) (\<lambda>enc'. rbind (encapsulateContent_loop P ts j enc')
          (\<lambda>e. rbind (KDF P (SecretHash t)) (\<lambda>k. AesCtr P k e)))))"
    by (simp only: ih)
  also have "\<dots> = rbind (encapsulateContent_loop P ts (Suc j) enc)
          (\<lambda>e. rbind (KDF P (SecretHash t)) (\<lambda>k. AesCtr P k e))"
    by (simp only: encapsulateContent_loop.simps(2)[of P ts j] rbind_assoc)
  finally show ?case .
qed

lemma encapsulateContent_Cons:
  "encapsulateContent P (t # ts) message =
   rbind (encapsulateContent P ts message)
     (\<lambda>e. rbind (KDF P (SecretHash t)) (\<lambda>k. AesCtr P k e))"
  by (simp add: encapsulateContent_def encapsulateContent_loop_Cons del: encapsulateContent_loop.simps)

subsection \<open>The whole journey\<close>

lemma codec_packet:
  assumes "codec_ok P"
  shows "\<exists>bs. marshalPacket P p = Ok bs \<and> unmarshalPacket P bs = Ok p"
  using assms unfolding codec_ok_def by blast

lemma process_packet_compose:
  assumes codec: "codec_ok P"
    and bytes: "marshalPacket P \<lparr>Hdr = Some hdr, Pld = pl\<rparr> = Ok bytes"
    and hd: "ProcessSphinxHeader P hdr k = Ok (hop, c, hdr')"
    and pay: "ProcessSphinxPayload P (hdrAlpha hdr) pl k = Ok pl'"
  shows "\<exists>bytes'. ProcessSphinxPacket P bytes k = Ok (hop, c, bytes') \<and>
           marshalPacket P \<lparr>Hdr = Some hdr', Pld = pl'\<rparr> = Ok bytes' \<and>
           unmarshalPacket P bytes' = Ok \<lparr>Hdr = Some hdr', Pld = pl'\<rparr>"
proof -
  have un: "unmarshalPacket P bytes = Ok \<lparr>Hdr = Some hdr, Pld = pl\<rparr>"
    using codec_packet[OF codec, of "\<lparr>Hdr = Some hdr, Pld = pl\<rparr>"] bytes by auto
  obtain bytes' where b': "marshalPacket P \<lparr>Hdr = Some hdr', Pld = pl'\<rparr> = Ok bytes'"
    "unmarshalPacket P bytes' = Ok \<lparr>Hdr = Some hdr', Pld = pl'\<rparr>"
    using codec_packet[OF codec] by blast
  show ?thesis
    using un hd pay b' by (simp add: ProcessSphinxPacket_def)
qed

lemma honest_keys_Cons:
  "honest_keys P (n # ns) ks \<Longrightarrow>
   \<exists>k ks'. ks = k # ks' \<and> length (PubKey n) = PublicKeySize \<and>
     pubToFE P (PubKey n) = ScalarBaseMult P (privToFE P k) \<and> honest_keys P ns ks'"
proof -
  assume h: "honest_keys P (n # ns) ks"
  then obtain k ks' where ks: "ks = k # ks'"
    by (cases ks) (auto simp: honest_keys_def)
  have "honest_keys P ns ks'"
    using h ks unfolding honest_keys_def by fastforce
  moreover have "length (PubKey n) = PublicKeySize \<and>
     pubToFE P (PubKey n) = ScalarBaseMult P (privToFE P k)"
    using h ks unfolding honest_keys_def by fastforce
  ultimately show ?thesis using ks by blast
qed

lemma journey:
  assumes dh: "dh_ok P" and cipher: "cipher_ok P" and codec: "codec_ok P"
  shows "getSharedSecrets_loop P i bf ns = Ok ts \<Longrightarrow> expoGroupBase P bf = Ok a \<Longrightarrow>
     honest_keys P ns ks \<Longrightarrow> onion P ts ns cs dest = Ok (e, m) \<Longrightarrow>
     encapsulateContent P ts msg = Ok pl \<Longrightarrow>
     marshalPacket P \<lparr>Hdr = Some \<lparr>hdrAlpha = feBytes P a, Beta = e, Mac = m\<rparr>, Pld = pl\<rparr> = Ok bytes \<Longrightarrow>
     \<exists>fin a'. process_path P bytes ks = Ok (zip (map hopOf (tl ns) @ [destHop dest]) cs, fin) \<and>
        unmarshalPacket P fin = Ok \<lparr>Hdr = Some \<lparr>hdrAlpha = a', Beta = [], Mac = []\<rparr>, Pld = msg\<rparr>"
proof (induction ns arbitrary: i bf ts a ks cs e m pl bytes)
  case Nil
  then show ?case by simp
next
  case (Cons n ns)
  from Cons.prems(1) obtain aesS blinder ts' where
    k: "KDF P (feBytes P (expo P (pubToFE P (PubKey n)) bf)) = Ok aesS" and
    b: "computeBlindingFactor P aesS = Ok blinder" and
    rest: "getSharedSecrets_loop P (Suc i) (bf @ [blinder]) ns = Ok ts'" and
    ts: "ts = \<lparr>Alpha = feBytes P a, Secret = feBytes P (expo P (pubToFE P (PubKey n)) bf),
                Blinder = feBytes P blinder, SecretHash = aesS\<rparr> # ts'"
    using Cons.prems(2) by (auto simp: rbind_Ok_iff Let_def split: if_splits)
  define t where "t = \<lparr>Alpha = feBytes P a, Secret = feBytes P (expo P (pubToFE P (PubKey n)) bf),
                Blinder = feBytes P blinder, SecretHash = aesS\<rparr>"
  have tsh: "SecretHash t = aesS" and ts': "ts = t # ts'" by (simp_all add: t_def ts)
  from honest_keys_Cons[OF Cons.prems(3)] obtain key ks' where
    ks: "ks = key # ks'" and pub: "pubToFE P (PubKey n) = ScalarBaseMult P (privToFE P key)" and
    hk: "honest_keys P ns ks'"
    by blast
  have secret: "KDF P (feBytes P (ScalarMult P (privToFE P key)
                  (BytesToFieldElement P (feBytes P a)))) = Ok (SecretHash t)"
    using shared_secret_agrees[OF dh Cons.prems(2) pub] k tsh by simp
  have blind: "computeBlindingFactor P (SecretHash t) = Ok blinder"
    using b tsh by simp
  have dec: "BytesToFieldElement P (feBytes P a) = a"
    by (rule decode_expoGroupBase[OF dh Cons.prems(2)])
  from Cons.prems(5) obtain pl' kk where
    pl': "encapsulateContent P ts' msg = Ok pl'" and kk: "KDF P (SecretHash t) = Ok kk" and
    enc: "AesCtr P kk pl' = Ok pl"
    by (auto simp: ts' encapsulateContent_Cons rbind_Ok_iff)
  have pay: "ProcessSphinxPayload P (feBytes P a) pl key = Ok pl'"
    by (rule process_payload_layer[OF cipher secret kk enc])
  show ?case
  proof (cases ns)
    case Nil
    then have ts'nil: "ts' = []" using rest by simp
    obtain c where cs: "cs = [c]" and fl: "final_layer P t c dest = Ok (e, m)"
      using Cons.prems(4) Nil ts' ts'nil
      by (cases cs; cases "tl cs") auto
    have msg: "pl' = msg" using pl' ts'nil by (simp add: encapsulateContent_def)
    have hd: "ProcessSphinxHeader P \<lparr>hdrAlpha = feBytes P a, Beta = e, Mac = m\<rparr> key =
         Ok (destHop dest, c,
             \<lparr>hdrAlpha = feBytes P (ScalarMult P blinder (BytesToFieldElement P (feBytes P a))),
              Beta = [], Mac = []\<rparr>)"
      using process_header_final[OF cipher codec fl secret blind] by (simp add: destHop_def)
    from process_packet_compose[OF codec Cons.prems(6) hd] pay obtain bytes' where
      "ProcessSphinxPacket P bytes key = Ok (destHop dest, c, bytes')"
      "unmarshalPacket P bytes' = Ok \<lparr>Hdr = Some \<lparr>hdrAlpha = feBytes P (ScalarMult P blinder
           (BytesToFieldElement P (feBytes P a))), Beta = [], Mac = []\<rparr>, Pld = pl'\<rparr>"
      by auto
    then show ?thesis
      using Nil ks hk cs msg by (auto simp: honest_keys_def)
  next
    case (Cons n' ns')
    obtain c cs' e' m' where cs: "cs = c # cs'" and
      inner: "onion P ts' (n' # ns') cs' dest = Ok (e', m')" and
      rl: "relay_layer P t n' c e' m' = Ok (e, m)"
      using Cons.prems(4) Cons ts'
      by (cases cs) (auto simp: rbind_Ok_iff)
    have hd: "ProcessSphinxHeader P \<lparr>hdrAlpha = feBytes P a, Beta = e, Mac = m\<rparr> key =
         Ok (hopOf n', c,
             \<lparr>hdrAlpha = feBytes P (ScalarMult P blinder a), Beta = e', Mac = m'\<rparr>)"
      using process_header_relay[OF cipher codec rl secret blind] dec by (simp add: hopOf_def)
    from process_packet_compose[OF codec Cons.prems(6) hd] pay obtain bytes' where
      step: "ProcessSphinxPacket P bytes key = Ok (hopOf n', c, bytes')" and
      next_bytes: "marshalPacket P \<lparr>Hdr = Some \<lparr>hdrAlpha = feBytes P (ScalarMult P blinder a),
           Beta = e', Mac = m'\<rparr>, Pld = pl'\<rparr> = Ok bytes'"
      by auto
    have a': "expoGroupBase P (bf @ [blinder]) = Ok (ScalarMult P blinder a)"
      by (rule expoGroupBase_snoc[OF Cons.prems(2)])
    from Cons.IH[OF rest a' hk _ pl' next_bytes, of cs'] inner Cons obtain fin a'' where
      "process_path P bytes' ks' = Ok (zip (map hopOf (tl ns) @ [destHop dest]) cs', fin)"
      "unmarshalPacket P fin = Ok \<lparr>Hdr = Some \<lparr>hdrAlpha = a'', Beta = [], Mac = []\<rparr>, Pld = msg\<rparr>"
      by auto
    then show ?thesis
      using step ks cs Cons by auto
  qed
qed

subsection \<open>Building succeeds\<close>

lemma createHeader_commands_Ok:
  "i + length xs \<le> length delays \<Longrightarrow>
   \<exists>cs. createHeader_commands P n i xs delays = Ok cs \<and> length cs = length xs \<and>
     (\<forall>j<length xs. cs ! j = \<lparr>Delay = delays ! (i + j),
        Flag = (if i + j = n - 1 then LastHopFlag P else RelayFlag P)\<rparr>)"
proof (induction xs arbitrary: i)
  case Nil
  then show ?case by simp
next
  case (Cons x xs)
  from Cons.IH[of "Suc i"] Cons.prems obtain cs where
    cs: "createHeader_commands P n (Suc i) xs delays = Ok cs" "length cs = length xs"
      "\<forall>j<length xs. cs ! j = \<lparr>Delay = delays ! (Suc i + j),
        Flag = (if Suc i + j = n - 1 then LastHopFlag P else RelayFlag P)\<rparr>"
    by auto
  let ?c = "\<lparr>Delay = delays ! i, Flag = (if i = n - 1 then LastHopFlag P else RelayFlag P)\<rparr>"
  have run: "createHeader_commands P n i (x # xs) delays = Ok (?c # cs)"
    using cs(1) Cons.prems by (simp add: idx_def Let_def)
  have "\<forall>j<length (x # xs). (?c # cs) ! j = \<lparr>Delay = delays ! (i + j),
        Flag = (if i + j = n - 1 then LastHopFlag P else RelayFlag P)\<rparr>"
  proof (intro allI impI)
    fix j assume "j < length (x # xs)"
    then show "(?c # cs) ! j = \<lparr>Delay = delays ! (i + j),
        Flag = (if i + j = n - 1 then LastHopFlag P else RelayFlag P)\<rparr>"
      using cs(3) by (cases j) auto
  qed
  then show ?case using run cs(2) by auto
qed

lemma final_layer_Ok:
  assumes "chain_prims_ok P" "cipher_ok P" "codec_ok P"
  shows "\<exists>e m. final_layer P hi c dest = Ok (e, m)"
proof -
  let ?r = "\<lparr>NextHop = Some \<lparr>hopId = clientId dest,
                               Address = hostPort (clientHost dest) (clientPort dest),
                               hopPubKey = []\<rparr>,
              RoutingCommands = Some c, NextHopMetaData = [], riMac = []\<rparr>"
  obtain plain where p: "marshalRoutingInfo P ?r = Ok plain"
    using assms(3) unfolding codec_ok_def by blast
  obtain k where k: "KDF P (SecretHash hi) = Ok k"
    using assms(1) unfolding chain_prims_ok_def by blast
  obtain e where e: "AesCtr P k plain = Ok e"
    using assms(2) k unfolding cipher_ok_def by blast
  obtain m where m: "computeMac P k e = Ok m"
    using assms(2) k unfolding cipher_ok_def by blast
  show ?thesis using p k e m by (simp add: final_layer_def)
qed

lemma relay_layer_Ok:
  assumes "chain_prims_ok P" "cipher_ok P" "codec_ok P"
  shows "\<exists>e m. relay_layer P hi n' c e' m' = Ok (e, m)"
proof -
  let ?r = "\<lparr>NextHop = Some \<lparr>hopId = Id n', Address = hostPort (Host n') (Port n'),
                               hopPubKey = PubKey n'\<rparr>,
              RoutingCommands = Some c, NextHopMetaData = e', riMac = m'\<rparr>"
  obtain plain where p: "marshalRoutingInfo P ?r = Ok plain"
    using assms(3) unfolding codec_ok_def by blast
  obtain k where k: "KDF P (SecretHash hi) = Ok k"
    using assms(1) unfolding chain_prims_ok_def by blast
  obtain e where e: "AesCtr P k plain = Ok e"
    using assms(2) k unfolding cipher_ok_def by blast
  obtain m where m: "computeMac P k e = Ok m"
    using assms(2) k unfolding cipher_ok_def by blast
  show ?thesis using p k e m by (simp add: relay_layer_def)
qed

lemma onion_Ok:
  assumes ok: "chain_prims_ok P" "cipher_ok P" "codec_ok P"
  shows "ns \<noteq> [] \<Longrightarrow> length his = length ns \<Longrightarrow> length cs = length ns \<Longrightarrow>
         \<exists>e m. onion P his ns cs dest = Ok (e, m)"
proof (induction ns arbitrary: his cs)
  case Nil
  then show ?case by simp
next
  case (Cons n ns)
  obtain hi his' where his: "his = hi # his'" using Cons.prems(2) by (cases his) auto
  obtain c cs' where cs: "cs = c # cs'" using Cons.prems(3) by (cases cs) auto
  show ?case
  proof (cases ns)
    case Nil
    then show ?thesis
      using Cons.prems his cs final_layer_Ok[OF ok] by auto
  next
    case (Cons n' ns')
    then obtain e' m' where "onion P his' ns cs' dest = Ok (e', m')"
      using Cons.IH[of his' cs'] Cons.prems his cs by auto
    then show ?thesis
      using Cons his cs relay_layer_Ok[OF ok, of hi n' c e' m'] by auto
  qed
qed

lemma encapsulateContent_Ok:
  assumes ok: "chain_prims_ok P" "cipher_ok P"
  shows "\<exists>pl. encapsulateContent P ts msg = Ok pl"
proof (induction ts)
  case Nil
  then show ?case by (simp add: encapsulateContent_def)
next
  case (Cons t ts)
  then obtain pl where pl: "encapsulateContent P ts msg = Ok pl" by auto
  obtain k where k: "KDF P (SecretHash t) = Ok k"
    using ok(1) unfolding chain_prims_ok_def by blast
  obtain e where e: "AesCtr P k pl = Ok e"
    using ok(2) k unfolding cipher_ok_def by blast
  show ?case using pl k e by (simp add: encapsulateContent_Cons)
qed

subsection \<open>End-to-end round trip\<close>

lemma pack_built:
  assumes ok: "chain_prims_ok P" "cipher_ok P" "codec_ok P"
    and keys: "\<forall>n\<in>set (pathNodes path). length (PubKey n) = PublicKeySize"
    and delays: "length (pathNodes path) \<le> length delays"
  shows "\<exists>ts cs e m pl.
           getSharedSecrets_loop P 0 [x] (pathNodes path) = Ok ts \<and>
           createHeader_commands P (length (pathNodes path)) 0 (pathNodes path) delays = Ok cs \<and>
           length cs = length (pathNodes path) \<and>
           onion P ts (pathNodes path) cs (Recipient path) = Ok (e, m) \<and>
           encapsulateContent P ts msg = Ok pl \<and>
           PackForwardMessage P (Ok x) path delays msg =
             Ok \<lparr>Hdr = Some \<lparr>hdrAlpha = feBytes P (ScalarBaseMult P x), Beta = e, Mac = m\<rparr>,
                 Pld = pl\<rparr>"
proof -
  let ?nodes = "pathNodes path"
  have n2: "2 \<le> length ?nodes" and ne: "?nodes \<noteq> []" by (simp_all add: pathNodes_def)
  obtain ts where ts: "getSharedSecrets_loop P 0 [x] ?nodes = Ok ts"
    using gss_loop_total[OF ok(1) _ keys, of "[x]" 0] by auto
  from gss_loop_chain[OF ts] obtain bs where
    len: "length ts = length ?nodes" and
    chain: "\<forall>j<length ?nodes. chain_tuple P (PubKey (?nodes ! j)) ([x] @ take j bs) (bs ! j) (ts ! j)"
    by blast
  have "chain_tuple P (PubKey (?nodes ! 0)) [x] (bs ! 0) (ts ! 0)"
    using chain ne by fastforce
  then have a0: "Alpha (ts ! 0) = feBytes P (ScalarBaseMult P x)"
    by (auto simp: chain_tuple_def expo_def)
  obtain cs where cs: "createHeader_commands P (length ?nodes) 0 ?nodes delays = Ok cs"
    "length cs = length ?nodes"
    using createHeader_commands_Ok[of 0 ?nodes delays P "length ?nodes"] delays by auto
  obtain e m where em: "onion P ts ?nodes cs (Recipient path) = Ok (e, m)"
    using onion_Ok[OF ok ne len cs(2)] by blast
  have hdr: "encapsulateHeader P ts ?nodes cs (Recipient path) =
         Ok \<lparr>hdrAlpha = Alpha (ts ! 0), Beta = e, Mac = m\<rparr>"
    by (rule encapsulateHeader_onion[OF refl len cs(2) n2 em])
  obtain pl where pl: "encapsulateContent P ts msg = Ok pl"
    using encapsulateContent_Ok[OF ok(1,2)] by blast
  have "createHeader P (Ok x) ?nodes delays (Recipient path) =
          Ok (ts, \<lparr>hdrAlpha = feBytes P (ScalarBaseMult P x), Beta = e, Mac = m\<rparr>)"
    using ts len cs(1) hdr a0 by (simp add: createHeader_def getSharedSecrets_def)
  then have "PackForwardMessage P (Ok x) path delays msg =
             Ok \<lparr>Hdr = Some \<lparr>hdrAlpha = feBytes P (ScalarBaseMult P x), Beta = e, Mac = m\<rparr>,
                 Pld = pl\<rparr>"
    using pl unfolding PackForwardMessage_def pathNodes_def[symmetric] by (simp add: Let_def)
  then show ?thesis using ts cs em pl by blast
qed

lemma honest_keys_lengths:
  "honest_keys P nodes privs \<Longrightarrow> \<forall>n\<in>set nodes. length (PubKey n) = PublicKeySize"
  by (auto simp: honest_keys_def in_set_conv_nth)

text \<open>
  Claim C1. For every path (its node list has at least two nodes), every ephemeral scalar
  \<open>x\<close> returned by \<^verbatim>\<open>RandomElement\<close>, one delay per node and every message: when
  each node's public key has 32 bytes and belongs to the private key of the same
  position, \<^verbatim>\<open>PackForwardMessage\<close> succeeds, and processing the serialised packet
  with the private keys in path order succeeds at every hop. Every hop but the last
  returns the Relay flag, its own delay and the id of the next node; the last hop
  returns the LastHop flag and the recipient's id, and the payload of the packet it
  returns is the message. The primitives are assumed to behave as the cryptography
  promises: derived keys are accepted, \<^verbatim>\<open>AesCtr\<close> undoes itself, serialisation
  round-trips, scalar multiplications commute.
\<close>

theorem C1_round_trip:
  assumes ok: "chain_prims_ok P" "cipher_ok P" "codec_ok P" "dh_ok P"
    and keys: "honest_keys P (pathNodes path) privs"
    and delays: "length delays = length (pathNodes path)"
  shows "\<exists>pkt bytes hcs fin pktn.
           PackForwardMessage P (Ok x) path delays message = Ok pkt \<and>
           marshalPacket P pkt = Ok bytes \<and>
           process_path P bytes privs = Ok (hcs, fin) \<and>
           length hcs = length (pathNodes path) \<and>
           (\<forall>i<length (pathNodes path) - 1.
              Flag (snd (hcs ! i)) = RelayFlag P \<and>
              Delay (snd (hcs ! i)) = delays ! i \<and>
              hopId (fst (hcs ! i)) = Id (pathNodes path ! (i + 1))) \<and>
           Flag (snd (hcs ! (length (pathNodes path) - 1))) = LastHopFlag P \<and>
           hopId (fst (hcs ! (length (pathNodes path) - 1))) = clientId (Recipient path) \<and>
           unmarshalPacket P fin = Ok pktn \<and>
           Pld pktn = message"
proof -
  let ?nodes = "pathNodes path"
  let ?n = "length ?nodes"
  have n2: "2 \<le> ?n" by (simp add: pathNodes_def)
  from pack_built[OF ok(1-3) honest_keys_lengths[OF keys], of delays x message] delays
  obtain ts cs e m pl where
    ts: "getSharedSecrets_loop P 0 [x] ?nodes = Ok ts" and
    cs: "createHeader_commands P ?n 0 ?nodes delays = Ok cs" and
    lcs: "length cs = ?n" and
    em: "onion P ts ?nodes cs (Recipient path) = Ok (e, m)" and
    pl: "encapsulateContent P ts message = Ok pl" and
    pack: "PackForwardMessage P (Ok x) path delays message =
             Ok \<lparr>Hdr = Some \<lparr>hdrAlpha = feBytes P (ScalarBaseMult P x), Beta = e, Mac = m\<rparr>,
                 Pld = pl\<rparr>"
    by auto
  obtain bytes where bytes: "marshalPacket P \<lparr>Hdr = Some \<lparr>hdrAlpha = feBytes P (ScalarBaseMult P x),
       Beta = e, Mac = m\<rparr>, Pld = pl\<rparr> = Ok bytes"
    using codec_packet[OF ok(3)] by blast
  have a: "expoGroupBase P [x] = Ok (ScalarBaseMult P x)" by (simp add: expo_def)
  let ?hops = "map hopOf (tl ?nodes) @ [destHop (Recipient path)]"
  from journey[OF ok(4) ok(2) ok(3) ts a keys em pl bytes] obtain fin a' where
    run: "process_path P bytes privs = Ok (zip ?hops cs, fin)" and
    fin: "unmarshalPacket P fin =
            Ok \<lparr>Hdr = Some \<lparr>hdrAlpha = a', Beta = [], Mac = []\<rparr>, Pld = message\<rparr>"
    by blast
  have lh: "length ?hops = ?n" using n2 by simp
  from createHeader_commands_Ok[of 0 ?nodes delays P ?n] delays cs have
    cmd: "\<forall>j<?n. cs ! j = \<lparr>Delay = delays ! j,
        Flag = (if j = ?n - 1 then LastHopFlag P else RelayFlag P)\<rparr>"
    by auto
  have zipnth: "\<And>i. i < ?n \<Longrightarrow> zip ?hops cs ! i = (?hops ! i, cs ! i)"
    using lh lcs by simp
  have relay: "\<forall>i<?n - 1. Flag (snd (zip ?hops cs ! i)) = RelayFlag P \<and>
              Delay (snd (zip ?hops cs ! i)) = delays ! i \<and>
              hopId (fst (zip ?hops cs ! i)) = Id (?nodes ! (i + 1))"
  proof (intro allI impI)
    fix i assume i: "i < ?n - 1"
    then have i': "i < ?n" by simp
    have "?hops ! i = hopOf (?nodes ! (i + 1))"
      using i by (simp add: nth_append nth_tl)
    then show "Flag (snd (zip ?hops cs ! i)) = RelayFlag P \<and>
              Delay (snd (zip ?hops cs ! i)) = delays ! i \<and>
              hopId (fst (zip ?hops cs ! i)) = Id (?nodes ! (i + 1))"
      using zipnth[OF i'] cmd i i' by (simp add: hopOf_def)
  qed
  have last: "Flag (snd (zip ?hops cs ! (?n - 1))) = LastHopFlag P \<and>
              hopId (fst (zip ?hops cs ! (?n - 1))) = clientId (Recipient path)"
  proof -
    have l: "?n - 1 < ?n" using n2 by simp
    have "?hops ! (?n - 1) = destHop (Recipient path)"
      by (simp add: nth_append)
    then show ?thesis
      using zipnth[OF l] cmd l by (simp add: destHop_def)
  qed
  have len: "length (zip ?hops cs) = ?n" using lh lcs by simp
  have pld: "Pld \<lparr>Hdr = Some \<lparr>hdrAlpha = a', Beta = [], Mac = []\<rparr>, Pld = message\<rparr> = message"
    by simp
  show ?thesis
    using pack bytes run len relay last fin pld by blast
qed

lemma demo_cipher_ok: "cipher_ok demo"
  by (simp add: cipher_ok_def demo_def comp_def bit.xor_left_self ac_simps)

lemma demo_codec_ok: "codec_ok demo"
  using demo_routing_roundtrip demo_packet_roundtrip by (simp add: codec_ok_def demo_def)

lemma demo_dh_ok: "dh_ok demo"
  by (simp add: dh_ok_def demo_def demo_decode_encode demo_mult_lt mod_mult_right_eq ac_simps)

lemma demo_path_nodes: "pathNodes demo_path = demo_nodes"
  by (simp add: pathNodes_def demo_path_def demo_nodes_def)

lemma demo_honest_keys: "honest_keys demo demo_nodes demo_privs"
proof -
  have "\<And>k. pubToFE demo (PubKey (demo_node k)) = ScalarBaseMult demo (privToFE demo (demo_priv k))"
    by (simp add: demo_def demo_node_def demo_decode_encode demo_mult_lt)
  moreover have "\<And>i. i < 3 \<Longrightarrow> i = 0 \<or> i = 1 \<or> i = (2::nat)" by auto
  ultimately show ?thesis
    unfolding honest_keys_def demo_nodes_def demo_privs_def
    by (auto simp: demo_node_key nth_Cons split: nat.splits)
qed

text \<open>The hypotheses of C1 hold in the small instance, on a path of three nodes.\<close>

theorem C1_round_trip_witness:
  "chain_prims_ok demo \<and> cipher_ok demo \<and> codec_ok demo \<and> dh_ok demo \<and>
   honest_keys demo (pathNodes demo_path) demo_privs \<and>
   length demo_delays = length (pathNodes demo_path) \<and>
   (\<exists>pkt bytes hcs fin pktn.
           PackForwardMessage demo (Ok 7) demo_path demo_delays demo_message = Ok pkt \<and>
           marshalPacket demo pkt = Ok bytes \<and>
           process_path demo bytes demo_privs = Ok (hcs, fin) \<and>
           length hcs = length (pathNodes demo_path) \<and>
           (\<forall>i<length (pathNodes demo_path) - 1.
              Flag (snd (hcs ! i)) = RelayFlag demo \<and>
              Delay (snd (hcs ! i)) = demo_delays ! i \<and>
              hopId (fst (hcs ! i)) = Id (pathNodes demo_path ! (i + 1))) \<and>
           Flag (snd (hcs ! (length (pathNodes demo_path) - 1))) = LastHopFlag demo \<and>
           hopId (fst (hcs ! (length (pathNodes demo_path) - 1))) = clientId (Recipient demo_path) \<and>
           unmarshalPacket demo fin = Ok pktn \<and>
           Pld pktn = demo_message)"
proof -
  have k: "honest_keys demo (pathNodes demo_path) demo_privs"
    using demo_honest_keys by (simp add: demo_path_nodes)
  have d: "length demo_delays = length (pathNodes demo_path)"
    by (simp add: demo_path_nodes demo_delays_def demo_nodes_def)
  show ?thesis
    using demo_chain_prims_ok demo_cipher_ok demo_codec_ok demo_dh_ok k d
      C1_round_trip[OF demo_chain_prims_ok demo_cipher_ok demo_codec_ok demo_dh_ok k d,
        of 7 demo_message]
    by blast
qed

subsection \<open>Payload length\<close>

lemma encapsulateContent_loop_length:
  "aes_length_preserving P \<Longrightarrow> encapsulateContent_loop P his n enc = Ok out \<Longrightarrow>
   length out = length enc"
proof (induction n arbitrary: enc)
  case 0
  then show ?case by simp
next
  case (Suc n)
  from Suc.prems(2) obtain hi k enc' where
    "AesCtr P k enc = Ok enc'" "encapsulateContent_loop P his n enc' = Ok out"
    by (auto simp: rbind_Ok_iff)
  then show ?case
    using Suc.IH[of enc'] Suc.prems(1) by (auto simp: aes_length_preserving_def)
qed

lemma ProcessSphinxPayload_length:
  "aes_length_preserving P \<Longrightarrow> ProcessSphinxPayload P alpha payload privKey = Ok out \<Longrightarrow>
   length out = length payload"
  by (auto simp: ProcessSphinxPayload_def Let_def rbind_Ok_iff aes_length_preserving_def)

lemma ProcessSphinxPacket_Ok:
  assumes "ProcessSphinxPacket P bs privKey = Ok (hop, cmd, bs')"
  shows "\<exists>p hdr hdr' pl'. unmarshalPacket P bs = Ok p \<and> Hdr p = Some hdr \<and>
           ProcessSphinxHeader P hdr privKey = Ok (hop, cmd, hdr') \<and>
           ProcessSphinxPayload P (hdrAlpha hdr) (Pld p) privKey = Ok pl' \<and>
           marshalPacket P \<lparr>Hdr = Some hdr', Pld = pl'\<rparr> = Ok bs'"
  using assms
  by (auto simp: ProcessSphinxPacket_def rbind_Ok_iff split: option.splits)

text \<open>A packet built over the three nodes of the small instance passes its first hop.\<close>

lemma demo_first_hop:
  "\<exists>pkt bytes hop cmd bytes'.
     PackForwardMessage demo (Ok 7) demo_path demo_delays demo_message = Ok pkt \<and>
     marshalPacket demo pkt = Ok bytes \<and>
     ProcessSphinxPacket demo bytes (demo_priv 0) = Ok (hop, cmd, bytes')"
proof -
  have d: "length (pathNodes demo_path) \<le> length demo_delays"
    by (simp add: demo_path_nodes demo_delays_def demo_nodes_def)
  have keys: "\<forall>n\<in>set (pathNodes demo_path). length (PubKey n) = PublicKeySize"
    using demo_nodes_keys by (simp add: demo_path_nodes)
  from pack_built[OF demo_chain_prims_ok demo_cipher_ok demo_codec_ok keys d, of 7 demo_message]
  obtain ts cs e m pl where
    ts: "getSharedSecrets_loop demo 0 [7] (pathNodes demo_path) = Ok ts" and
    em: "onion demo ts (pathNodes demo_path) cs (Recipient demo_path) = Ok (e, m)" and
    pl: "encapsulateContent demo ts demo_message = Ok pl" and
    pack: "PackForwardMessage demo (Ok 7) demo_path demo_delays demo_message =
             Ok \<lparr>Hdr = Some \<lparr>hdrAlpha = feBytes demo (ScalarBaseMult demo 7), Beta = e, Mac = m\<rparr>,
                 Pld = pl\<rparr>"
    by auto
  obtain bytes where bytes: "marshalPacket demo \<lparr>Hdr = Some \<lparr>hdrAlpha = feBytes demo (ScalarBaseMult demo 7),
       Beta = e, Mac = m\<rparr>, Pld = pl\<rparr> = Ok bytes"
    using codec_packet[OF demo_codec_ok] by blast
  have a: "expoGroupBase demo [7] = Ok (ScalarBaseMult demo 7)" by (simp add: expo_def)
  have k: "honest_keys demo (pathNodes demo_path) demo_privs"
    using demo_honest_keys by (simp add: demo_path_nodes)
  from journey[OF demo_dh_ok demo_cipher_ok demo_codec_ok ts a k em pl bytes] obtain hcs fin where
    "process_path demo bytes demo_privs = Ok (hcs, fin)"
    by blast
  then obtain hop cmd bytes' where "ProcessSphinxPacket demo bytes (demo_priv 0) = Ok (hop, cmd, bytes')"
    by (auto simp: demo_privs_def rbind_Ok_iff)
  then show ?thesis using pack bytes by blast
qed

text \<open>
  Claim C7. When \<^verbatim>\<open>AesCtr\<close> preserves length: the payload that
  \<^verbatim>\<open>encapsulateContent\<close> returns is as long as the message, the payload that
  \<^verbatim>\<open>ProcessSphinxPayload\<close> returns is as long as the one it was given, and so the
  packet a hop returns carries a payload as long as that of the packet it received.
\<close>

theorem C7_payload_length:
  assumes "aes_length_preserving P"
  shows "(encapsulateContent P headerInitials message = Ok payload \<longrightarrow>
            length payload = length message) \<and>
         (ProcessSphinxPayload P alpha pl privKey = Ok pl' \<longrightarrow> length pl' = length pl) \<and>
         (codec_ok P \<and> ProcessSphinxPacket P bs privKey = Ok (hop, cmd, bs') \<longrightarrow>
            (\<exists>p p'. unmarshalPacket P bs = Ok p \<and> unmarshalPacket P bs' = Ok p' \<and>
                     length (Pld p') = length (Pld p)))"
proof (intro conjI impI)
  assume "encapsulateContent P headerInitials message = Ok payload"
  then show "length payload = length message"
    using assms encapsulateContent_loop_length by (simp add: encapsulateContent_def)
next
  assume "ProcessSphinxPayload P alpha pl privKey = Ok pl'"
  then show "length pl' = length pl"
    by (rule ProcessSphinxPayload_length[OF assms])
next
  assume a: "codec_ok P \<and> ProcessSphinxPacket P bs privKey = Ok (hop, cmd, bs')"
  then have run: "ProcessSphinxPacket P bs privKey = Ok (hop, cmd, bs')" by simp
  from ProcessSphinxPacket_Ok[OF run] obtain p hdr hdr' pl' where
    p: "unmarshalPacket P bs = Ok p"
       "ProcessSphinxPayload P (hdrAlpha (hdr :: Header)) (Pld p) privKey = Ok pl'"
       "marshalPacket P \<lparr>Hdr = Some hdr', Pld = pl'\<rparr> = Ok bs'"
    by blast
  have "unmarshalPacket P bs' = Ok \<lparr>Hdr = Some hdr', Pld = pl'\<rparr>"
    using a p(3) codec_packet[of P "\<lparr>Hdr = Some hdr', Pld = pl'\<rparr>"] by auto
  moreover have "length pl' = length (Pld p)"
    by (rule ProcessSphinxPayload_length[OF assms p(2)])
  ultimately show "\<exists>p p'. unmarshalPacket P bs = Ok p \<and> unmarshalPacket P bs' = Ok p' \<and>
                     length (Pld p') = length (Pld p)"
    using p(1) by simp
qed

lemma demo_aes_length_preserving: "aes_length_preserving demo"
  by (auto simp: aes_length_preserving_def demo_def)

lemma demo_content:
  "encapsulateContent demo demo_initials demo_message = Ok [0x64, 0x69, 0x60, 0x60, 0x63]"
  by (simp add: encapsulateContent_def demo_initials_def demo_message_def demo_def idx_def
      keybyte_def numeral_2_eq_2)

lemma demo_payload_Ok: "\<exists>out. ProcessSphinxPayload demo alpha pl k = Ok out"
  by (simp add: ProcessSphinxPayload_def demo_def)

text \<open>Each of the three parts of C7 at an input of the small instance where its
  premise holds.\<close>

theorem C7_payload_length_witness:
  "aes_length_preserving demo \<and>
   encapsulateContent demo demo_initials demo_message = Ok [0x64, 0x69, 0x60, 0x60, 0x63] \<and>
   length [0x64, 0x69, 0x60, 0x60, 0x63 :: byte] = length demo_message \<and>
   (\<exists>out. ProcessSphinxPayload demo [1, 2] [3, 4, 5] (demo_priv 0) = Ok out \<and> length out = 3) \<and>
   codec_ok demo \<and>
   (\<exists>bytes hop cmd bytes'. ProcessSphinxPacket demo bytes (demo_priv 0) = Ok (hop, cmd, bytes') \<and>
      (\<exists>p p'. unmarshalPacket demo bytes = Ok p \<and> unmarshalPacket demo bytes' = Ok p' \<and>
               length (Pld p') = length (Pld p)))"
proof -
  note c7 = C7_payload_length[OF demo_aes_length_preserving]
  have 1: "length [0x64, 0x69, 0x60, 0x60, 0x63 :: byte] = length demo_message"
    using c7[where headerInitials = demo_initials and message = demo_message
        and payload = "[0x64, 0x69, 0x60, 0x60, 0x63]"] demo_content
    by blast
  obtain out where out: "ProcessSphinxPayload demo [1, 2] [3, 4, 5] (demo_priv 0) = Ok out"
    using demo_payload_Ok by blast
  then have 2: "length out = 3"
    using c7[where alpha = "[1, 2]" and pl = "[3, 4, 5]" and privKey = "demo_priv 0" and pl' = out]
    by simp
  obtain bytes hop cmd bytes' where
    run: "ProcessSphinxPacket demo bytes (demo_priv 0) = Ok (hop, cmd, bytes')"
    using demo_first_hop by blast
  then have 3: "\<exists>p p'. unmarshalPacket demo bytes = Ok p \<and> unmarshalPacket demo bytes' = Ok p' \<and>
               length (Pld p') = length (Pld p)"
    using c7[where bs = bytes and privKey = "demo_priv 0" and hop = hop and cmd = cmd and bs' = bytes']
      demo_codec_ok by blast
  show ?thesis
    using demo_aes_length_preserving demo_content 1 out 2 demo_codec_ok run 3 by blast
qed

end
